theory Spec2Isabelle
  imports Main "HOL-Library.Word" "HOL-Library.Multiset"
begin

section \<open>The explicit-list allocator of el_malloc.c\<close>

text \<open>
  The allocator manages one contiguous region.  Every block of the region starts with a
  header (size, state, next, prev) and ends with a footer (size).  Two doubly linked
  lists with begin/end sentinel nodes, the available list and the used list, thread
  through the headers.

  Pointers and \<open>size_t\<close> values are 64-bit words; pointer arithmetic and size arithmetic
  wrap around.  \<open>NULL\<close> is the word 0.

  Memory is an explicit store, split by field: one map from addresses to values per
  header field and one for the footer's size field.  A header read at an address gives
  what was last written to that field at exactly that address.  The split store agrees
  with byte-addressed memory as long as the headers and footers that are read do not
  overlap others that were written since, which is the case in every state that
  satisfies the well-formedness predicate below (blocks tile the region).  Memory faults
  are not modelled: every access is total.
\<close>

type_synonym addr = "64 word"
type_synonym size_t = "64 word"

definition NULL :: addr where
  "NULL = 0"

subsection \<open>Declarations of el_malloc.h\<close>

text \<open>
  Modelled from the spec: the header file el_malloc.h is not among the sources.  The
  block states are the four of the spec's data model (Available, Used and the two list
  sentinels).  A header holds \<open>size\<close>, \<open>state\<close>, \<open>next\<close> and \<open>prev\<close> (32 bytes on the
  64-bit target: the dump format in el_malloc.c shows a footer 32 + size bytes after its
  header), a footer holds \<open>size\<close> (8 bytes), and the per-block overhead is their sum, 40,
  the value the spec's concrete scenario uses.
\<close>

datatype el_state = EL_AVAILABLE | EL_USED | EL_BEGIN_BLOCK | EL_END_BLOCK

definition sizeof_blockhead :: size_t where
  "sizeof_blockhead = 32"

definition sizeof_blockfoot :: size_t where
  "sizeof_blockfoot = 8"

definition EL_BLOCK_OVERHEAD :: size_t where
  "EL_BLOCK_OVERHEAD = sizeof_blockhead + sizeof_blockfoot"

definition PTR_PLUS_BYTES :: "addr \<Rightarrow> size_t \<Rightarrow> addr" where
  "PTR_PLUS_BYTES ptr off = ptr + off"

definition PTR_MINUS_BYTES :: "addr \<Rightarrow> size_t \<Rightarrow> addr" where
  "PTR_MINUS_BYTES ptr off = ptr - off"

text \<open>
  \<open>el_blocklist_t\<close>: the two sentinel headers are embedded in the list structure;
  \<open>beg_actual\<close> and \<open>end_actual\<close> are their addresses, \<open>beg\<close> and \<open>end\<close> the pointers
  to them that \<open>el_init_blocklist\<close> sets.
\<close>

record el_blocklist =
  beg_actual :: addr
  end_actual :: addr
  l_beg :: addr
  l_end :: addr
  l_length :: size_t
  l_bytes :: size_t

text \<open>
  \<open>el_ctl.avail\<close> and \<open>el_ctl.used\<close> point to the two list structures of the control
  block; a list pointer is one of these two.
\<close>

datatype list_ptr = avail | used

text \<open>The control block \<open>el_ctl\<close> together with the memory it manages.\<close>

record el_ctl =
  heap_start :: addr
  heap_end :: addr
  heap_bytes :: size_t
  blocklist :: "list_ptr \<Rightarrow> el_blocklist"
  blk_size :: "addr \<Rightarrow> size_t"
  blk_state :: "addr \<Rightarrow> el_state"
  blk_next :: "addr \<Rightarrow> addr"
  blk_prev :: "addr \<Rightarrow> addr"
  foot_size :: "addr \<Rightarrow> size_t"

subsection \<open>Pointer arithmetic\<close>

definition el_get_footer :: "el_ctl \<Rightarrow> addr \<Rightarrow> addr" where
  "el_get_footer s head = PTR_PLUS_BYTES head (sizeof_blockhead + blk_size s head)"

definition el_get_header :: "el_ctl \<Rightarrow> addr \<Rightarrow> addr" where
  "el_get_header s foot = PTR_PLUS_BYTES foot (- (sizeof_blockhead + foot_size s foot))"

definition el_block_above :: "el_ctl \<Rightarrow> addr \<Rightarrow> addr" where
  "el_block_above s block =
     (let higher_block = PTR_PLUS_BYTES block (blk_size s block + EL_BLOCK_OVERHEAD)
      in if higher_block \<ge> heap_end s then NULL else higher_block)"

definition el_block_below :: "el_ctl \<Rightarrow> addr \<Rightarrow> addr" where
  "el_block_below s block =
     (if block = heap_start s then NULL
      else el_get_header s (PTR_MINUS_BYTES block sizeof_blockfoot))"

subsection \<open>Block list operations\<close>

definition list_upd :: "list_ptr \<Rightarrow> (el_blocklist \<Rightarrow> el_blocklist) \<Rightarrow> el_ctl \<Rightarrow> el_ctl" where
  "list_upd l f s = s\<lparr>blocklist := (blocklist s)(l := f (blocklist s l))\<rparr>"

text \<open>
  \<open>el_init_blocklist\<close>; \<open>uninit\<close> is the constant \<open>EL_UNINITIALIZED\<close> of el_malloc.h,
  stored in the size field of the sentinels.
\<close>

definition el_init_blocklist :: "size_t \<Rightarrow> list_ptr \<Rightarrow> el_ctl \<Rightarrow> el_ctl" where
  "el_init_blocklist uninit l s =
     (let b = beg_actual (blocklist s l);
          e = end_actual (blocklist s l);
          s = list_upd l (\<lambda>L. L\<lparr>l_beg := b\<rparr>) s;
          s = s\<lparr>blk_state := (blk_state s)(b := EL_BEGIN_BLOCK)\<rparr>;
          s = s\<lparr>blk_size := (blk_size s)(b := uninit)\<rparr>;
          s = list_upd l (\<lambda>L. L\<lparr>l_end := e\<rparr>) s;
          s = s\<lparr>blk_state := (blk_state s)(e := EL_END_BLOCK)\<rparr>;
          s = s\<lparr>blk_size := (blk_size s)(e := uninit)\<rparr>;
          s = s\<lparr>blk_next := (blk_next s)(b := e)\<rparr>;
          s = s\<lparr>blk_prev := (blk_prev s)(b := NULL)\<rparr>;
          s = s\<lparr>blk_next := (blk_next s)(e := NULL)\<rparr>;
          s = s\<lparr>blk_prev := (blk_prev s)(e := b)\<rparr>
      in list_upd l (\<lambda>L. L\<lparr>l_length := 0, l_bytes := 0\<rparr>) s)"

definition el_add_block_front :: "list_ptr \<Rightarrow> addr \<Rightarrow> el_ctl \<Rightarrow> el_ctl" where
  "el_add_block_front l block s =
     (let b = l_beg (blocklist s l);
          s = s\<lparr>blk_next := (blk_next s)(block := blk_next s b)\<rparr>;
          s = s\<lparr>blk_prev := (blk_prev s)(block := b)\<rparr>;
          s = s\<lparr>blk_prev := (blk_prev s)(blk_next s b := block)\<rparr>;
          s = s\<lparr>blk_next := (blk_next s)(b := block)\<rparr>
      in list_upd l (\<lambda>L. L\<lparr>l_length := l_length L + 1,
                            l_bytes := l_bytes L + (blk_size s block + EL_BLOCK_OVERHEAD)\<rparr>) s)"

definition el_remove_block :: "list_ptr \<Rightarrow> addr \<Rightarrow> el_ctl \<Rightarrow> el_ctl" where
  "el_remove_block l block s =
     (let next_block = blk_next s block;
          prev_block = blk_prev s block;
          s = (if next_block \<noteq> NULL
               then s\<lparr>blk_prev := (blk_prev s)(next_block := prev_block)\<rparr> else s);
          s = (if prev_block \<noteq> NULL
               then s\<lparr>blk_next := (blk_next s)(prev_block := next_block)\<rparr> else s)
      in list_upd l (\<lambda>L. L\<lparr>l_length := l_length L - 1,
                            l_bytes := l_bytes L - (blk_size s block + EL_BLOCK_OVERHEAD)\<rparr>) s)"

subsection \<open>Initialisation\<close>

text \<open>
  \<open>el_init\<close>.  \<open>EL_HEAP_START_ADDRESS\<close> and \<open>EL_HEAP_INITIAL_SIZE\<close> are macros of
  el_malloc.h and \<open>EL_UNINITIALIZED\<close> too: they are parameters here, as is the address
  \<open>heap\<close> that \<open>mmap\<close> returns.  The state \<open>s\<close> is the world before the call; of it only
  the addresses of the sentinels embedded in \<open>el_ctl\<close> matter.  The result is \<open>None\<close>
  when the assertion fails, otherwise the return code and the new state.
\<close>

definition el_init :: "addr \<Rightarrow> size_t \<Rightarrow> size_t \<Rightarrow> addr \<Rightarrow> el_ctl \<Rightarrow> (int \<times> el_ctl) option" where
  "el_init EL_HEAP_START_ADDRESS EL_HEAP_INITIAL_SIZE EL_UNINITIALIZED heap s =
     (if heap \<noteq> EL_HEAP_START_ADDRESS then None
      else
        let s = s\<lparr>heap_bytes := EL_HEAP_INITIAL_SIZE\<rparr>;
            s = s\<lparr>heap_start := heap\<rparr>;
            s = s\<lparr>heap_end := PTR_PLUS_BYTES heap (heap_bytes s)\<rparr>
        in if heap_bytes s < EL_BLOCK_OVERHEAD then Some (- 1, s)
           else
             let s = el_init_blocklist EL_UNINITIALIZED avail s;
                 s = el_init_blocklist EL_UNINITIALIZED used s;
                 size' = heap_bytes s - EL_BLOCK_OVERHEAD;
                 ablock = heap_start s;
                 s = s\<lparr>blk_size := (blk_size s)(ablock := size')\<rparr>;
                 s = s\<lparr>blk_state := (blk_state s)(ablock := EL_AVAILABLE)\<rparr>;
                 afoot = el_get_footer s ablock;
                 s = s\<lparr>foot_size := (foot_size s)(afoot := size')\<rparr>;
                 s = el_add_block_front avail ablock s
             in Some (0, s))"

subsection \<open>Allocation\<close>

text \<open>
  The search loop of \<open>el_find_first_avail\<close> follows \<open>next\<close> pointers until it meets the
  end sentinel; on a list whose links never reach it the loop does not return, which is
  the value \<open>None\<close> here.
\<close>

partial_function (option) find_loop :: "el_ctl \<Rightarrow> size_t \<Rightarrow> addr \<Rightarrow> addr option" where
  "find_loop s size' current_block =
     (if current_block = l_end (blocklist s avail) then Some NULL
      else if blk_size s current_block \<ge> size' + EL_BLOCK_OVERHEAD then Some current_block
      else find_loop s size' (blk_next s current_block))"

declare find_loop.simps [code]

definition el_find_first_avail :: "el_ctl \<Rightarrow> size_t \<Rightarrow> addr option" where
  "el_find_first_avail s size' = find_loop s size' (blk_next s (l_beg (blocklist s avail)))"

definition el_split_block :: "addr \<Rightarrow> size_t \<Rightarrow> el_ctl \<Rightarrow> addr \<times> el_ctl" where
  "el_split_block block new_size s =
     (if blk_size s block < new_size + EL_BLOCK_OVERHEAD then (NULL, s)
      else
        let lower_head = block;
            upper_foot = el_get_footer s block;
            original_size = blk_size s block;
            s = s\<lparr>blk_size := (blk_size s)(lower_head := new_size)\<rparr>;
            lower_foot = el_get_footer s block;
            s = s\<lparr>foot_size := (foot_size s)(lower_foot := new_size)\<rparr>;
            upper_head = el_block_above s lower_head;
            s = s\<lparr>blk_size := (blk_size s)
                   (upper_head := original_size - new_size - EL_BLOCK_OVERHEAD)\<rparr>;
            s = s\<lparr>foot_size := (foot_size s)(upper_foot := blk_size s upper_head)\<rparr>
        in (upper_head, s))"

definition el_malloc :: "size_t \<Rightarrow> el_ctl \<Rightarrow> (addr \<times> el_ctl) option" where
  "el_malloc nbytes s =
     (case el_find_first_avail s nbytes of
        None \<Rightarrow> None
      | Some user_block \<Rightarrow>
          if user_block = NULL then Some (NULL, s)
          else
            let s = el_remove_block avail user_block s;
                (remaining_block, s) = el_split_block user_block nbytes s;
                s = el_add_block_front used user_block s;
                s = s\<lparr>blk_state := (blk_state s)(user_block := EL_USED)\<rparr>;
                s = (if remaining_block \<noteq> NULL
                     then let s = el_add_block_front avail remaining_block s
                          in s\<lparr>blk_state := (blk_state s)(remaining_block := EL_AVAILABLE)\<rparr>
                     else s)
            in Some (PTR_PLUS_BYTES user_block sizeof_blockhead, s))"

subsection \<open>Deallocation and coalescing\<close>

definition el_merge_block_with_above :: "addr \<Rightarrow> el_ctl \<Rightarrow> el_ctl" where
  "el_merge_block_with_above lower s =
     (if lower = NULL \<or> blk_state s lower = EL_USED then s
      else
        let higher = el_block_above s lower
        in if higher = NULL \<or> blk_state s higher = EL_USED then s
           else
             let new_size = blk_size s lower + blk_size s higher + EL_BLOCK_OVERHEAD;
                 s = el_remove_block avail lower s;
                 s = el_remove_block avail higher s;
                 s = s\<lparr>blk_size := (blk_size s)(lower := new_size)\<rparr>;
                 foot = el_get_footer s higher;
                 s = s\<lparr>foot_size := (foot_size s)(foot := new_size)\<rparr>
             in el_add_block_front avail lower s)"

definition el_free :: "addr \<Rightarrow> el_ctl \<Rightarrow> el_ctl" where
  "el_free ptr s =
     (let user_block = PTR_PLUS_BYTES ptr (- sizeof_blockhead)
      in if blk_state s user_block = EL_AVAILABLE then s
         else
           let s = el_remove_block used user_block s;
               s = s\<lparr>blk_state := (blk_state s)(user_block := EL_AVAILABLE)\<rparr>;
               s = el_add_block_front avail user_block s;
               s = el_merge_block_with_above user_block s
           in el_merge_block_with_above (el_block_below s user_block) s)"

section \<open>Abstraction of the lists\<close>

text \<open>
  \<open>dll nxt prv p xs e\<close>: following \<open>nxt\<close> from the node \<open>p\<close> visits exactly the nodes
  \<open>xs\<close> in this order and then \<open>e\<close>, and \<open>prv\<close> leads back the same way.
\<close>

primrec dll :: "(addr \<Rightarrow> addr) \<Rightarrow> (addr \<Rightarrow> addr) \<Rightarrow> addr \<Rightarrow> addr list \<Rightarrow> addr \<Rightarrow> bool" where
  "dll nxt prv p [] e \<longleftrightarrow> nxt p = e \<and> prv e = p"
| "dll nxt prv p (x # xs) e \<longleftrightarrow> nxt p = x \<and> prv x = p \<and> dll nxt prv x xs e"

text \<open>
  The member blocks of a list, in list order, are the nodes strictly between its two
  sentinels.  No member is the end sentinel of the list or the null pointer.
\<close>

definition members :: "el_ctl \<Rightarrow> list_ptr \<Rightarrow> addr list \<Rightarrow> bool" where
  "members s l xs \<longleftrightarrow>
     dll (blk_next s) (blk_prev s) (l_beg (blocklist s l)) xs (l_end (blocklist s l)) \<and>
     l_end (blocklist s l) \<notin> set xs \<and> NULL \<notin> set xs"

text \<open>The nodes of a list: the begin sentinel, the members, the end sentinel.\<close>

definition list_nodes :: "el_ctl \<Rightarrow> list_ptr \<Rightarrow> addr list \<Rightarrow> addr list" where
  "list_nodes s l xs = l_beg (blocklist s l) # xs @ [l_end (blocklist s l)]"

text \<open>
  One list is in order when its links form the chain of its nodes, the nodes are distinct
  and none is null, and its two counters agree with its members: \<open>length\<close> is their
  number and \<open>bytes\<close> the sum of \<open>size + EL_BLOCK_OVERHEAD\<close> over them.
\<close>

definition one_list :: "el_ctl \<Rightarrow> list_ptr \<Rightarrow> addr list \<Rightarrow> bool" where
  "one_list s l xs \<longleftrightarrow>
     dll (blk_next s) (blk_prev s) (l_beg (blocklist s l)) xs (l_end (blocklist s l)) \<and>
     distinct (list_nodes s l xs) \<and> NULL \<notin> set (list_nodes s l xs) \<and>
     l_length (blocklist s l) = of_nat (length xs) \<and>
     l_bytes (blocklist s l) = (\<Sum>b\<leftarrow>xs. blk_size s b + EL_BLOCK_OVERHEAD)"

text \<open>Both lists are in order and share no node.\<close>

definition lists_ok :: "el_ctl \<Rightarrow> addr list \<Rightarrow> addr list \<Rightarrow> bool" where
  "lists_ok s as us \<longleftrightarrow>
     one_list s avail as \<and> one_list s used us \<and>
     set (list_nodes s avail as) \<inter> set (list_nodes s used us) = {}"

section \<open>Abstraction of the region\<close>

text \<open>
  \<open>tile sz ft lo bs hi\<close>: the blocks whose headers are at \<open>bs\<close>, in ascending order,
  fill the addresses from \<open>lo\<close> to \<open>hi\<close> without gap or overlap: each block starts
  where the one before it ends, it takes its size field plus the overhead, and its footer
  repeats its size.
\<close>

primrec tile :: "(addr \<Rightarrow> size_t) \<Rightarrow> (addr \<Rightarrow> size_t) \<Rightarrow> nat \<Rightarrow> addr list \<Rightarrow> nat \<Rightarrow> bool" where
  "tile sz ft lo [] hi \<longleftrightarrow> lo = hi"
| "tile sz ft lo (b # bs) hi \<longleftrightarrow>
     unat b = lo \<and> ft (b + (sizeof_blockhead + sz b)) = sz b \<and>
     tile sz ft (lo + unat (sz b) + unat EL_BLOCK_OVERHEAD) bs hi"

definition extent :: "(addr \<Rightarrow> size_t) \<Rightarrow> addr list \<Rightarrow> nat" where
  "extent sz bs = (\<Sum>b\<leftarrow>bs. unat (sz b) + unat EL_BLOCK_OVERHEAD)"

text \<open>An address outside the region.\<close>

definition outside :: "el_ctl \<Rightarrow> addr \<Rightarrow> bool" where
  "outside s x \<longleftrightarrow> x < heap_start s \<or> heap_end s \<le> x"

text \<open>
  The region is in order: it does not start at the null pointer, it ends
  \<open>heap_bytes\<close> after its start, the blocks \<open>bs\<close> tile it, and the sentinels of
  both lists lie outside it.
\<close>

definition heap_ok :: "el_ctl \<Rightarrow> addr list \<Rightarrow> bool" where
  "heap_ok s bs \<longleftrightarrow>
     heap_start s \<noteq> NULL \<and> heap_start s + heap_bytes s = heap_end s \<and>
     tile (blk_size s) (foot_size s) (unat (heap_start s)) bs (unat (heap_end s)) \<and>
     outside s (l_beg (blocklist s avail)) \<and> outside s (l_end (blocklist s avail)) \<and>
     outside s (l_beg (blocklist s used)) \<and> outside s (l_end (blocklist s used))"

section \<open>Well-formed states\<close>

text \<open>
  \<open>wf s as us bs\<close>: in the state \<open>s\<close> the blocks \<open>bs\<close> tile the region, the
  available list holds \<open>as\<close> and the used list \<open>us\<close> (in list order), every block is
  on exactly one of the two lists, and its state says which.
\<close>

definition well_formed :: "el_ctl \<Rightarrow> addr list \<Rightarrow> addr list \<Rightarrow> addr list \<Rightarrow> bool" where
  "well_formed s as us bs \<longleftrightarrow>
     heap_ok s bs \<and> lists_ok s as us \<and> set as \<union> set us = set bs \<and>
     (\<forall>b \<in> set as. blk_state s b = EL_AVAILABLE) \<and>
     (\<forall>b \<in> set us. blk_state s b = EL_USED)"

text \<open>
  \<open>coalesced s bs\<close>: no two physically adjacent blocks are both in the Available
  state.
\<close>

fun coalesced_states :: "el_state list \<Rightarrow> bool" where
  "coalesced_states (x # y # r) \<longleftrightarrow>
     \<not> (x = EL_AVAILABLE \<and> y = EL_AVAILABLE) \<and> coalesced_states (y # r)"
| "coalesced_states r \<longleftrightarrow> True"

definition coalesced :: "el_ctl \<Rightarrow> addr list \<Rightarrow> bool" where
  "coalesced s bs \<longleftrightarrow> coalesced_states (map (blk_state s) bs)"

section \<open>Reachable states\<close>

text \<open>
  The environment in which \<open>el_init\<close> is called: the region does not start at the null
  pointer and does not wrap around the address space, it can hold one block, and the four
  sentinels embedded in the control block are at four different addresses, none of them
  null, all outside the region.
\<close>

definition init_ok :: "el_ctl \<Rightarrow> addr \<Rightarrow> size_t \<Rightarrow> bool" where
  "init_ok w heap S \<longleftrightarrow>
     heap \<noteq> NULL \<and> unat heap + unat S < 2 ^ 64 \<and> EL_BLOCK_OVERHEAD \<le> S \<and>
     distinct [beg_actual (blocklist w avail), end_actual (blocklist w avail),
               beg_actual (blocklist w used), end_actual (blocklist w used)] \<and>
     (\<forall>x \<in> set [beg_actual (blocklist w avail), end_actual (blocklist w avail),
                 beg_actual (blocklist w used), end_actual (blocklist w used)].
        x \<noteq> NULL \<and> (x < heap \<or> heap + S \<le> x))"

text \<open>
  The states the public operations produce: \<open>reachable L s\<close> when \<open>s\<close> results from a
  successful \<open>el_init\<close> followed by any number of completed \<open>el_malloc\<close> and \<open>el_free\<close>
  calls, \<open>L\<close> being the pointers handed out and not yet freed.  \<open>el_free\<close> is called only
  on such a pointer, and \<open>el_malloc\<close> only with a request \<open>n\<close> for which
  \<open>n + EL_BLOCK_OVERHEAD\<close> does not wrap around.
\<close>

inductive reachable :: "addr set \<Rightarrow> el_ctl \<Rightarrow> bool" where
  init: "init_ok w heap S \<Longrightarrow> el_init heap S u heap w = Some (0, s) \<Longrightarrow> reachable {} s"
| malloc: "reachable L s \<Longrightarrow> unat n + unat EL_BLOCK_OVERHEAD < 2 ^ 64 \<Longrightarrow>
     el_malloc n s = Some (p, s') \<Longrightarrow> reachable (if p = NULL then L else insert p L) s'"
| free: "reachable L s \<Longrightarrow> p \<in> L \<Longrightarrow> reachable (L - {p}) (el_free p s)"

section \<open>A concrete heap\<close>

text \<open>
  The world before \<open>el_init\<close>: the sentinels of the two lists sit at four addresses of
  the data segment, everything else is blank.  \<open>example_heap\<close> is the state after
  \<open>el_init\<close> with the region of 4096 bytes at 0x600000000000 that the dumps in
  el_malloc.c show.
\<close>

definition example_world :: el_ctl where
  "example_world =
     \<lparr>heap_start = 0, heap_end = 0, heap_bytes = 0,
      blocklist = (\<lambda>l. case l of
          avail \<Rightarrow> \<lparr>beg_actual = 0x404060, end_actual = 0x404080,
                     l_beg = 0, l_end = 0, l_length = 0, l_bytes = 0\<rparr>
        | used \<Rightarrow> \<lparr>beg_actual = 0x4040D0, end_actual = 0x4040F0,
                    l_beg = 0, l_end = 0, l_length = 0, l_bytes = 0\<rparr>),
      blk_size = (\<lambda>_. 0), blk_state = (\<lambda>_. EL_END_BLOCK),
      blk_next = (\<lambda>_. 0), blk_prev = (\<lambda>_. 0), foot_size = (\<lambda>_. 0)\<rparr>"

definition example_heap :: el_ctl where
  "example_heap = snd (the (el_init 0x600000000000 4096 0 0x600000000000 example_world))"

section \<open>Evaluation of the concrete heap\<close>

lemmas el_defs =
  NULL_def sizeof_blockhead_def sizeof_blockfoot_def EL_BLOCK_OVERHEAD_def
  PTR_PLUS_BYTES_def PTR_MINUS_BYTES_def el_get_footer_def el_get_header_def
  el_block_above_def el_block_below_def list_upd_def el_init_blocklist_def
  el_add_block_front_def el_remove_block_def el_init_def el_split_block_def
  el_merge_block_with_above_def el_free_def

lemma example_heap_init:
  "el_init 0x600000000000 4096 0 0x600000000000 example_world = Some (0, example_heap)"
  by (simp add: example_heap_def el_init_def Let_def EL_BLOCK_OVERHEAD_def
      sizeof_blockhead_def sizeof_blockfoot_def PTR_PLUS_BYTES_def)



lemma example_heap_state:
  "blk_state example_heap 0x600000000000 = EL_AVAILABLE"
  by (simp add: example_heap_def example_world_def el_defs Let_def)

section \<open>First fit\<close>

lemma find_loop_members:
  assumes "dll (blk_next s) prv p xs (l_end (blocklist s avail))"
    and "l_end (blocklist s avail) \<notin> set xs"
  shows "find_loop s n (blk_next s p) =
     Some (case List.find (\<lambda>b. n + EL_BLOCK_OVERHEAD \<le> blk_size s b) xs of
             None \<Rightarrow> NULL | Some b \<Rightarrow> b)"
  using assms
proof (induction xs arbitrary: p)
  case Nil
  then show ?case by (subst find_loop.simps) simp
next
  case (Cons a xs)
  from Cons.prems have a: "blk_next s p = a" "a \<noteq> l_end (blocklist s avail)"
    and rest: "dll (blk_next s) prv a xs (l_end (blocklist s avail))"
      "l_end (blocklist s avail) \<notin> set xs"
    by auto
  show ?case
  proof (cases "n + EL_BLOCK_OVERHEAD \<le> blk_size s a")
    case True
    then show ?thesis using a by (subst find_loop.simps) simp
  next
    case False
    have "find_loop s n a = find_loop s n (blk_next s a)"
      using False a by (subst find_loop.simps) simp
    then show ?thesis using Cons.IH[OF rest] False a by simp
  qed
qed

lemma el_find_first_avail_find:
  assumes "members s avail xs"
  shows "el_find_first_avail s n =
     Some (case List.find (\<lambda>b. n + EL_BLOCK_OVERHEAD \<le> blk_size s b) xs of
             None \<Rightarrow> NULL | Some b \<Rightarrow> b)"
  using assms find_loop_members[of s "blk_prev s" "l_beg (blocklist s avail)" xs n]
  by (simp add: members_def el_find_first_avail_def)

section \<open>Doubly linked lists\<close>

lemma dll_frame:
  assumes "\<forall>x \<in> set (p # xs). nxt' x = nxt x" and "\<forall>x \<in> set (xs @ [e]). prv' x = prv x"
  shows "dll nxt' prv' p xs e = dll nxt prv p xs e"
  using assms by (induction xs arbitrary: p) auto

lemma dll_append:
  "dll nxt prv p (xs @ y # ys) e \<longleftrightarrow> dll nxt prv p xs y \<and> dll nxt prv y ys e"
  by (induction xs arbitrary: p) auto

lemma dll_nxt: "dll nxt prv p xs e \<Longrightarrow> nxt p = hd (xs @ [e])"
  by (cases xs) auto

lemma dll_prv: "dll nxt prv p xs e \<Longrightarrow> prv e = last (p # xs)"
  by (induction xs arbitrary: p) auto

lemma dll_remove:
  assumes "dll nxt prv p (P @ x # Q) e" and "distinct (p # P @ x # Q @ [e])"
  shows "dll (nxt(prv x := nxt x)) (prv(nxt x := prv x)) p (P @ Q) e"
  using assms
proof (induction P arbitrary: p)
  case Nil
  then have px: "nxt p = x" "prv x = p" and xq: "dll nxt prv x Q e" by auto
  show ?case
  proof (cases Q)
    case Nil
    then show ?thesis using px xq by simp
  next
    case (Cons v Q')
    then have v: "nxt x = v" "prv v = x" "dll nxt prv v Q' e" using xq by auto
    have "dll (nxt(p := v)) (prv(v := p)) v Q' e = dll nxt prv v Q' e"
      using Nil.prems(2) Cons by (intro dll_frame) auto
    moreover have "(nxt(p := v)) p = v" "(prv(v := p)) v = p" by simp_all
    ultimately show ?thesis using v(3) unfolding Cons px v by (simp del: fun_upd_apply)
  qed
next
  case (Cons a P)
  then have pa: "nxt p = a" "prv a = p" and rest: "dll nxt prv a (P @ x # Q) e" by auto
  have d: "distinct (a # P @ x # Q @ [e])" using Cons.prems(2) by simp
  have ih: "dll (nxt(prv x := nxt x)) (prv(nxt x := prv x)) a (P @ Q) e"
    by (rule Cons.IH[OF rest d])
  from rest have "dll nxt prv a P x" "dll nxt prv x Q e" by (auto simp: dll_append)
  then have "prv x = last (a # P)" "nxt x = hd (Q @ [e])"
    by (auto dest: dll_prv dll_nxt)
  moreover have "last (a # P) \<in> set (a # P)" by (rule last_in_set) simp
  moreover have "hd (Q @ [e]) \<in> set (Q @ [e])" by (rule hd_in_set) simp
  ultimately have "prv x \<noteq> p" "nxt x \<noteq> a" using Cons.prems(2) by auto
  then have "(nxt(prv x := nxt x)) p = a" "(prv(nxt x := prv x)) a = p"
    using pa by simp_all
  then show ?case using ih by (simp del: fun_upd_apply)
qed

lemma dll_add_front:
  assumes "dll nxt prv p xs e" and "distinct (x # p # xs @ [e])"
  shows "dll ((nxt(x := nxt p))(p := x)) ((prv(x := p))(nxt p := x)) p (x # xs) e"
proof (cases xs)
  case Nil
  then show ?thesis using assms by auto
next
  case (Cons v xs')
  then have v: "nxt p = v" "prv v = p" "dll nxt prv v xs' e" using assms(1) by auto
  have "dll ((nxt(x := v))(p := x)) ((prv(x := p))(v := x)) v xs' e = dll nxt prv v xs' e"
    using assms(2) Cons by (intro dll_frame) auto
  then show ?thesis using v Cons assms(2) by auto
qed

subsection \<open>Effect of the list primitives on the fields\<close>

lemma remove_fields [simp]:
  "blk_size (el_remove_block l x s) = blk_size s"
  "foot_size (el_remove_block l x s) = foot_size s"
  "blk_state (el_remove_block l x s) = blk_state s"
  "heap_start (el_remove_block l x s) = heap_start s"
  "heap_end (el_remove_block l x s) = heap_end s"
  "heap_bytes (el_remove_block l x s) = heap_bytes s"
  "l_beg (blocklist (el_remove_block l x s) k) = l_beg (blocklist s k)"
  "l_end (blocklist (el_remove_block l x s) k) = l_end (blocklist s k)"
  by (simp_all add: el_remove_block_def list_upd_def Let_def)

lemma remove_links:
  assumes "blk_next s x \<noteq> NULL" and "blk_prev s x \<noteq> NULL"
  shows "blk_next (el_remove_block l x s) = (blk_next s)(blk_prev s x := blk_next s x)"
    and "blk_prev (el_remove_block l x s) = (blk_prev s)(blk_next s x := blk_prev s x)"
  using assms by (simp_all add: el_remove_block_def list_upd_def Let_def)

lemma remove_counters:
  "l_length (blocklist (el_remove_block l x s) k) =
     (if k = l then l_length (blocklist s k) - 1 else l_length (blocklist s k))"
  "l_bytes (blocklist (el_remove_block l x s) k) =
     (if k = l then l_bytes (blocklist s k) - (blk_size s x + EL_BLOCK_OVERHEAD)
      else l_bytes (blocklist s k))"
  by (simp_all add: el_remove_block_def list_upd_def Let_def)

lemma add_fields [simp]:
  "blk_size (el_add_block_front l x s) = blk_size s"
  "foot_size (el_add_block_front l x s) = foot_size s"
  "blk_state (el_add_block_front l x s) = blk_state s"
  "heap_start (el_add_block_front l x s) = heap_start s"
  "heap_end (el_add_block_front l x s) = heap_end s"
  "heap_bytes (el_add_block_front l x s) = heap_bytes s"
  "l_beg (blocklist (el_add_block_front l x s) k) = l_beg (blocklist s k)"
  "l_end (blocklist (el_add_block_front l x s) k) = l_end (blocklist s k)"
  by (simp_all add: el_add_block_front_def list_upd_def Let_def)

lemma add_links:
  assumes "x \<noteq> l_beg (blocklist s l)"
  shows "blk_next (el_add_block_front l x s) =
      ((blk_next s)(x := blk_next s (l_beg (blocklist s l))))(l_beg (blocklist s l) := x)"
    and "blk_prev (el_add_block_front l x s) =
      ((blk_prev s)(x := l_beg (blocklist s l)))(blk_next s (l_beg (blocklist s l)) := x)"
  using assms by (simp_all add: el_add_block_front_def list_upd_def Let_def)

lemma add_counters:
  "l_length (blocklist (el_add_block_front l x s) k) =
     (if k = l then l_length (blocklist s k) + 1 else l_length (blocklist s k))"
  "l_bytes (blocklist (el_add_block_front l x s) k) =
     (if k = l then l_bytes (blocklist s k) + (blk_size s x + EL_BLOCK_OVERHEAD)
      else l_bytes (blocklist s k))"
  by (simp_all add: el_add_block_front_def list_upd_def Let_def)

lemma list_nodes_remove [simp]: "list_nodes (el_remove_block l x s) k xs = list_nodes s k xs"
  by (simp add: list_nodes_def)

lemma list_nodes_add [simp]: "list_nodes (el_add_block_front l x s) k xs = list_nodes s k xs"
  by (simp add: list_nodes_def)

subsection \<open>Removing a member\<close>

lemma one_list_links:
  assumes "one_list s l xs" and "x \<in> set xs"
  shows "blk_next s x \<in> set (list_nodes s l xs)" and "blk_prev s x \<in> set (list_nodes s l xs)"
    and "blk_next s x \<noteq> NULL" and "blk_prev s x \<noteq> NULL"
proof -
  obtain P Q where xs: "xs = P @ x # Q" using assms(2) by (auto dest: split_list)
  let ?b = "l_beg (blocklist s l)" and ?e = "l_end (blocklist s l)"
  have "dll (blk_next s) (blk_prev s) ?b P x" "dll (blk_next s) (blk_prev s) x Q ?e"
    using assms(1) by (auto simp: one_list_def xs dll_append)
  then have np: "blk_prev s x = last (?b # P)" "blk_next s x = hd (Q @ [?e])"
    by (auto dest: dll_prv dll_nxt)
  have "last (?b # P) \<in> set (?b # P)" by (rule last_in_set) simp
  moreover have "hd (Q @ [?e]) \<in> set (Q @ [?e])" by (rule hd_in_set) simp
  ultimately show n: "blk_next s x \<in> set (list_nodes s l xs)"
    and p: "blk_prev s x \<in> set (list_nodes s l xs)"
    using np by (auto simp: list_nodes_def xs)
  show "blk_next s x \<noteq> NULL" "blk_prev s x \<noteq> NULL"
    using n p assms(1) by (auto simp: one_list_def)
qed

lemma distinct_remove1_nodes:
  "distinct (b # xs @ [e]) \<Longrightarrow> distinct (b # remove1 x xs @ [e])"
  by (auto simp: distinct_remove1 dest: notin_set_remove1)

lemma one_list_remove:
  assumes "one_list s l xs" and "x \<in> set xs"
  shows "one_list (el_remove_block l x s) l (remove1 x xs)"
proof -
  obtain P Q where xs: "xs = P @ x # Q" and nP: "x \<notin> set P"
    using assms(2) by (auto dest: split_list_first)
  have r1: "remove1 x xs = P @ Q" using nP by (simp add: xs remove1_append)
  let ?b = "l_beg (blocklist s l)" and ?e = "l_end (blocklist s l)"
  have d: "distinct (?b # P @ x # Q @ [?e])" and nn: "NULL \<notin> set (?b # xs @ [?e])"
    and dl: "dll (blk_next s) (blk_prev s) ?b (P @ x # Q) ?e"
    and len: "l_length (blocklist s l) = of_nat (length xs)"
    and byt: "l_bytes (blocklist s l) = (\<Sum>b\<leftarrow>xs. blk_size s b + EL_BLOCK_OVERHEAD)"
    using assms(1) by (auto simp: one_list_def list_nodes_def xs)
  note lk = one_list_links[OF assms]
  have "dll (blk_next (el_remove_block l x s)) (blk_prev (el_remove_block l x s)) ?b (P @ Q) ?e"
    using dll_remove[OF dl d] by (simp add: remove_links[OF lk(3,4)] del: fun_upd_apply)
  moreover have "distinct (?b # (P @ Q) @ [?e])" using d by auto
  moreover have "NULL \<notin> set (?b # (P @ Q) @ [?e])" using nn by (auto simp: xs)
  moreover have "l_length (blocklist s l) - 1 = of_nat (length (P @ Q))"
    using len by (simp add: xs)
  moreover have "l_bytes (blocklist s l) - (blk_size s x + EL_BLOCK_OVERHEAD) =
      (\<Sum>b\<leftarrow>P @ Q. blk_size s b + EL_BLOCK_OVERHEAD)"
    using byt by (simp add: xs)
  ultimately show ?thesis
    by (simp add: one_list_def r1 list_nodes_def remove_counters)
qed

lemma one_list_remove_other:
  assumes "one_list s l xs" and "x \<in> set xs" and "one_list s k ys" and "k \<noteq> l"
    and "set (list_nodes s l xs) \<inter> set (list_nodes s k ys) = {}"
  shows "one_list (el_remove_block l x s) k ys"
proof -
  note lk = one_list_links[OF assms(1,2)]
  let ?b = "l_beg (blocklist s k)" and ?e = "l_end (blocklist s k)"
  have out: "blk_prev s x \<notin> set (?b # ys @ [?e])" "blk_next s x \<notin> set (?b # ys @ [?e])"
    using lk(1,2) assms(5) by (auto simp: list_nodes_def)
  have "dll (blk_next (el_remove_block l x s)) (blk_prev (el_remove_block l x s)) ?b ys ?e
      = dll (blk_next s) (blk_prev s) ?b ys ?e"
    unfolding remove_links[OF lk(3,4)] using out by (intro dll_frame) auto
  then show ?thesis
    using assms(3,4) by (simp add: one_list_def remove_counters)
qed

subsection \<open>Adding a block at the front\<close>

lemma one_list_add:
  assumes "one_list s l xs" and "x \<notin> set (list_nodes s l xs)" and "x \<noteq> NULL"
  shows "one_list (el_add_block_front l x s) l (x # xs)"
proof -
  let ?b = "l_beg (blocklist s l)" and ?e = "l_end (blocklist s l)"
  have d: "distinct (x # ?b # xs @ [?e])" and nn: "NULL \<notin> set (?b # xs @ [?e])"
    and dl: "dll (blk_next s) (blk_prev s) ?b xs ?e"
    and len: "l_length (blocklist s l) = of_nat (length xs)"
    and byt: "l_bytes (blocklist s l) = (\<Sum>b\<leftarrow>xs. blk_size s b + EL_BLOCK_OVERHEAD)"
    using assms by (auto simp: one_list_def list_nodes_def)
  have xb: "x \<noteq> ?b" using d by auto
  have "dll (blk_next (el_add_block_front l x s)) (blk_prev (el_add_block_front l x s))
      ?b (x # xs) ?e"
    using dll_add_front[OF dl d] unfolding add_links[OF xb] .
  moreover have "distinct (?b # (x # xs) @ [?e])" using d by auto
  moreover have "NULL \<notin> set (?b # (x # xs) @ [?e])" using nn assms(3) by auto
  ultimately show ?thesis
    using len byt by (simp add: one_list_def list_nodes_def add_counters add.commute)
qed

lemma one_list_add_other:
  assumes "one_list s l xs" and "x \<notin> set (list_nodes s l xs)" and "one_list s k ys" and "k \<noteq> l"
    and "x \<notin> set (list_nodes s k ys)"
    and "set (list_nodes s l xs) \<inter> set (list_nodes s k ys) = {}"
  shows "one_list (el_add_block_front l x s) k ys"
proof -
  let ?b = "l_beg (blocklist s l)"
  let ?bk = "l_beg (blocklist s k)" and ?ek = "l_end (blocklist s k)"
  have xb: "x \<noteq> ?b" using assms(2) by (auto simp: list_nodes_def)
  have "blk_next s ?b = hd (xs @ [l_end (blocklist s l)])"
    using assms(1) by (auto simp: one_list_def dest: dll_nxt)
  moreover have "hd (xs @ [l_end (blocklist s l)]) \<in> set (xs @ [l_end (blocklist s l)])"
    by (rule hd_in_set) simp
  ultimately have "blk_next s ?b \<in> set (list_nodes s l xs)" by (auto simp: list_nodes_def)
  then have out: "blk_next s ?b \<notin> set (?bk # ys @ [?ek])" "?b \<notin> set (?bk # ys @ [?ek])"
    "x \<notin> set (?bk # ys @ [?ek])"
    using assms(5,6) by (auto simp: list_nodes_def)
  have "dll (blk_next (el_add_block_front l x s)) (blk_prev (el_add_block_front l x s)) ?bk ys ?ek
      = dll (blk_next s) (blk_prev s) ?bk ys ?ek"
    unfolding add_links[OF xb] using out by (intro dll_frame) auto
  then show ?thesis
    using assms(3,4) by (simp add: one_list_def add_counters)
qed

section \<open>Tiling\<close>

lemma unat_overhead [simp]: "unat EL_BLOCK_OVERHEAD = 40"
  by (simp add: EL_BLOCK_OVERHEAD_def sizeof_blockhead_def sizeof_blockfoot_def)

lemma unat_blockhead [simp]: "unat sizeof_blockhead = 32"
  by (simp add: sizeof_blockhead_def)

lemma unat_blockfoot [simp]: "unat sizeof_blockfoot = 8"
  by (simp add: sizeof_blockfoot_def)

lemma extent_simps [simp]:
  "extent sz [] = 0"
  "extent sz (b # bs) = unat (sz b) + 40 + extent sz bs"
  "extent sz (xs @ ys) = extent sz xs + extent sz ys"
  by (simp_all add: extent_def)

lemma tile_extent: "tile sz ft lo bs hi \<Longrightarrow> hi = lo + extent sz bs"
proof (induction bs arbitrary: lo)
  case Nil
  then show ?case by simp
next
  case (Cons a bs)
  then have "tile sz ft (lo + unat (sz a) + 40) bs hi" by simp
  from Cons.IH[OF this] show ?case by simp
qed

lemma tile_append:
  "tile sz ft lo (xs @ ys) hi \<longleftrightarrow>
     tile sz ft lo xs (lo + extent sz xs) \<and> tile sz ft (lo + extent sz xs) ys hi"
  by (induction xs arbitrary: lo) (auto simp: add.assoc)

lemma tile_mem:
  "tile sz ft lo bs hi \<Longrightarrow> b \<in> set bs \<Longrightarrow> lo \<le> unat b \<and> unat b + unat (sz b) + 40 \<le> hi"
proof (induction bs arbitrary: lo)
  case Nil
  then show ?case by simp
next
  case (Cons a bs)
  show ?case
  proof (cases "b = a")
    case True
    then show ?thesis using Cons.prems(1) by (auto dest: tile_extent)
  next
    case False
    then have "lo + unat (sz a) + 40 \<le> unat b \<and> unat b + unat (sz b) + 40 \<le> hi"
      using Cons by auto
    then show ?thesis by simp
  qed
qed

lemma tile_before:
  assumes "tile sz ft lo (P @ b # Q) hi" and "x \<in> set P"
  shows "unat x + unat (sz x) + 40 \<le> unat b"
proof -
  have "tile sz ft lo P (lo + extent sz P)" "unat b = lo + extent sz P"
    using assms(1) by (auto simp: tile_append)
  then show ?thesis using tile_mem[of sz ft lo P "lo + extent sz P" x] assms(2) by simp
qed

lemma tile_after:
  assumes "tile sz ft lo (P @ b # Q) hi" and "x \<in> set Q"
  shows "unat b + unat (sz b) + 40 \<le> unat x"
proof -
  have "tile sz ft (unat b + unat (sz b) + 40) Q hi"
    using assms(1) by (auto simp: tile_append)
  then show ?thesis using tile_mem[of sz ft _ Q hi x] assms(2) by simp
qed

lemma tile_distinct: "tile sz ft lo bs hi \<Longrightarrow> distinct bs"
proof (induction bs arbitrary: lo)
  case Nil
  then show ?case by simp
next
  case (Cons a bs)
  have "a \<notin> set bs"
  proof
    assume "a \<in> set bs"
    then have "unat a + unat (sz a) + 40 \<le> unat a"
      using tile_after[of sz ft lo "[]" a bs hi a] Cons.prems by simp
    then show False by simp
  qed
  then show ?case using Cons by auto
qed

lemma tile_frame:
  assumes "\<forall>b \<in> set bs. sz' b = sz b \<and>
      ft' (b + (sizeof_blockhead + sz b)) = ft (b + (sizeof_blockhead + sz b))"
  shows "tile sz' ft' lo bs hi = tile sz ft lo bs hi"
  using assms by (induction bs arbitrary: lo) auto

text \<open>Words from their positions.\<close>

lemma unat_of_nat64: "k < 2 ^ 64 \<Longrightarrow> unat (of_nat k :: 64 word) = k"
  by (simp add: unat_of_nat)

lemma word_from_pos: "unat (x :: 64 word) = k \<Longrightarrow> x = of_nat k"
  by auto

lemma unat_add3:
  assumes "unat (b :: 64 word) + unat (n :: 64 word) + k < 2 ^ 64"
  shows "unat (b + (n + of_nat k)) = unat b + unat n + k"
proof -
  have "b + (n + of_nat k) = of_nat (unat b + unat n + k)" by simp
  then show ?thesis using assms unat_of_nat64 by metis
qed

lemma unat_add3':
  assumes "unat (b :: 64 word) + unat (n :: 64 word) + k < 2 ^ 64"
  shows "unat (b + (of_nat k + n)) = unat b + unat n + k"
  using unat_add3[OF assms] by (simp add: add.commute)

lemma unat_above:
  assumes "unat (b :: 64 word) + unat (n :: 64 word) + 40 < 2 ^ 64"
  shows "unat (b + (n + EL_BLOCK_OVERHEAD)) = unat b + unat n + 40"
proof -
  have "unat (n + EL_BLOCK_OVERHEAD) = unat n + 40"
    using assms unat_add_lem[of n EL_BLOCK_OVERHEAD] by simp
  then show ?thesis using assms unat_add_lem[of b "n + EL_BLOCK_OVERHEAD"] by simp
qed

lemma unat_foot:
  assumes "unat (b :: 64 word) + unat (n :: 64 word) + 40 < 2 ^ 64"
  shows "unat (b + (sizeof_blockhead + n)) = unat b + 32 + unat n"
proof -
  have "unat (sizeof_blockhead + n) = 32 + unat n"
    using assms unat_add_lem[of sizeof_blockhead n] by simp
  then show ?thesis using assms unat_add_lem[of b "sizeof_blockhead + n"] by simp
qed

lemma unat_remainder:
  assumes "unat (n :: 64 word) + 40 \<le> unat (s :: 64 word)"
  shows "unat (s - n - EL_BLOCK_OVERHEAD) = unat s - unat n - 40"
proof -
  have "n \<le> s" using assms by (simp add: word_le_nat_alt)
  then have a: "unat (s - n) = unat s - unat n" by (rule unat_sub)
  then have "EL_BLOCK_OVERHEAD \<le> s - n" using assms by (simp add: word_le_nat_alt)
  then show ?thesis using a by (simp add: unat_sub)
qed

lemma unat_merged:
  assumes "unat (a :: 64 word) + unat (c :: 64 word) + 40 < 2 ^ 64"
  shows "unat (a + c + EL_BLOCK_OVERHEAD) = unat a + unat c + 40"
proof -
  have "unat (a + c) = unat a + unat c" using assms unat_add_lem[of a c] by simp
  then show ?thesis using assms unat_add_lem[of "a + c" EL_BLOCK_OVERHEAD] by simp
qed

lemma unat_lt64: "unat (x :: 64 word) < 2 ^ 64"
  using unsigned_less[of x] by simp

lemma unat_neq: "unat (a :: 64 word) \<noteq> unat b \<Longrightarrow> a \<noteq> b"
  by auto

lemma tile_split:
  fixes n :: size_t
  assumes t: "tile sz ft lo (P @ b # Q) (unat (he :: addr))"
    and fit: "unat n + 40 \<le> unat (sz b)"
  defines "u \<equiv> b + (n + EL_BLOCK_OVERHEAD)"
    and "r \<equiv> sz b - n - EL_BLOCK_OVERHEAD"
  shows "tile (sz(b := n, u := r))
           (ft(b + (sizeof_blockhead + n) := n, b + (sizeof_blockhead + sz b) := r))
           lo (P @ b # u # Q) (unat he)"
proof -
  let ?sz = "sz(b := n, u := r)"
  let ?lf = "b + (sizeof_blockhead + n)" and ?uf = "b + (sizeof_blockhead + sz b)"
  let ?ft = "ft(?lf := n, ?uf := r)"
  let ?m = "unat b"
  have tP: "tile sz ft lo P (lo + extent sz P)" and mb: "?m = lo + extent sz P"
    and fb: "ft ?uf = sz b"
    and tQ: "tile sz ft (?m + unat (sz b) + 40) Q (unat he)"
    using t by (auto simp: tile_append)
  have top: "?m + unat (sz b) + 40 \<le> unat he"
    using tile_extent[OF tQ] by simp
  have lim: "?m + unat (sz b) + 40 < 2 ^ 64" using top unat_lt64[of he] by simp
  have uu: "unat u = ?m + unat n + 40"
    unfolding u_def using lim fit by (intro unat_above) simp
  have ur: "unat r = unat (sz b) - unat n - 40"
    unfolding r_def using fit by (rule unat_remainder)
  have ulf: "unat ?lf = ?m + 32 + unat n" using lim fit by (intro unat_foot) simp
  have uuf: "unat ?uf = ?m + 32 + unat (sz b)" using lim by (intro unat_foot) simp
  have ub: "u \<noteq> b" using uu by auto
  have lfuf: "?lf \<noteq> ?uf" by (rule unat_neq, unfold ulf uuf) (use fit in linarith)
  have foot_u: "u + (sizeof_blockhead + r) = ?uf"
    by (simp add: u_def r_def)
  have frame: "tile ?sz ?ft lo' xs hi' = tile sz ft lo' xs hi'"
    if out: "\<forall>x \<in> set xs. unat x + unat (sz x) + 40 \<le> ?m \<or> ?m + unat (sz b) + 40 \<le> unat x"
      and inh: "\<forall>x \<in> set xs. unat x + unat (sz x) + 40 \<le> unat he"
    for lo' xs hi'
  proof (rule tile_frame, rule ballI)
    fix x assume x: "x \<in> set xs"
    then have o: "unat x + unat (sz x) + 40 \<le> ?m \<or> ?m + unat (sz b) + 40 \<le> unat x"
      and i: "unat x + unat (sz x) + 40 \<le> unat he"
      using out inh by auto
    have "unat x + unat (sz x) + 40 < 2 ^ 64" using i unat_lt64[of he] by simp
    then have fx: "unat (x + (sizeof_blockhead + sz x)) = unat x + 32 + unat (sz x)"
      by (rule unat_foot)
    have "x \<noteq> b" "x \<noteq> u" using o uu fit by auto
    moreover have "x + (sizeof_blockhead + sz x) \<noteq> ?lf"
      by (rule unat_neq, unfold fx ulf) (use o fit in linarith)
    moreover have "x + (sizeof_blockhead + sz x) \<noteq> ?uf"
      by (rule unat_neq, unfold fx uuf) (use o fit in linarith)
    ultimately show "?sz x = sz x \<and>
        ?ft (x + (sizeof_blockhead + sz x)) = ft (x + (sizeof_blockhead + sz x))"
      by simp
  qed
  have P': "tile ?sz ?ft lo P (lo + extent sz P)"
  proof -
    have a: "\<forall>x \<in> set P. unat x + unat (sz x) + 40 \<le> ?m"
      using tile_before[OF t] by auto
    then have "\<forall>x \<in> set P. unat x + unat (sz x) + 40 \<le> unat he"
      using top by auto
    then show ?thesis using frame[of P lo "lo + extent sz P"] tP a by auto
  qed
  have Q': "tile ?sz ?ft (?m + unat (sz b) + 40) Q (unat he)"
  proof -
    have "\<forall>x \<in> set Q. ?m + unat (sz b) + 40 \<le> unat x"
      using tile_after[OF t] by auto
    moreover have "\<forall>x \<in> set Q. unat x + unat (sz x) + 40 \<le> unat he"
      using tile_mem[OF tQ] by auto
    ultimately show ?thesis using frame[of Q] tQ by auto
  qed
  have eP: "extent ?sz P = extent sz P"
  proof -
    have "\<forall>x \<in> set P. ?sz x = sz x"
    proof
      fix x assume "x \<in> set P"
      then have "unat x + unat (sz x) + 40 \<le> ?m" using tile_before[OF t] by auto
      then have "x \<noteq> b" "x \<noteq> u" using uu by auto
      then show "?sz x = sz x" by simp
    qed
    then show ?thesis unfolding extent_def by (auto intro!: arg_cong[where f=sum_list] map_cong)
  qed
  have szb: "?sz b = n" using ub by simp
  have szu: "?sz u = r" by simp
  have ftl: "?ft ?lf = n" using lfuf by simp
  have ftu: "?ft ?uf = r" by simp
  have pos: "?m + unat n + 40 + unat r + 40 = ?m + unat (sz b) + 40"
    using ur fit by simp
  have e: "lo + extent sz P + unat n + unat EL_BLOCK_OVERHEAD + unat r + unat EL_BLOCK_OVERHEAD
      = ?m + unat (sz b) + 40"
    using pos mb by simp
  have Q'': "tile ?sz ?ft (lo + extent sz P + unat n + unat EL_BLOCK_OVERHEAD + unat r
      + unat EL_BLOCK_OVERHEAD) Q (unat he)"
    unfolding e by (rule Q')
  show ?thesis
    unfolding tile_append tile.simps eP szb szu foot_u ftl ftu
    using P' Q'' mb uu by simp
qed

lemma tile_merge:
  assumes t: "tile sz ft lo (P @ l # h # Q) (unat (he :: addr))"
  defines "new \<equiv> sz l + sz h + EL_BLOCK_OVERHEAD"
  shows "tile (sz(l := new)) (ft(h + (sizeof_blockhead + sz h) := new)) lo (P @ l # Q) (unat he)"
    and "unat new = unat (sz l) + unat (sz h) + 40"
proof -
  let ?sz = "sz(l := new)"
  let ?hf = "h + (sizeof_blockhead + sz h)"
  let ?ft = "ft(?hf := new)"
  let ?m = "unat l"
  have tP: "tile sz ft lo P (lo + extent sz P)" and ml: "?m = lo + extent sz P"
    and mh: "unat h = ?m + unat (sz l) + 40"
    and tQ: "tile sz ft (unat h + unat (sz h) + 40) Q (unat he)"
    using t by (auto simp: tile_append)
  have top: "unat h + unat (sz h) + 40 \<le> unat he"
    using tile_extent[OF tQ] by simp
  have lim: "unat h + unat (sz h) + 40 < 2 ^ 64" using top unat_lt64[of he] by simp
  show un: "unat new = unat (sz l) + unat (sz h) + 40"
    unfolding new_def using lim mh by (intro unat_merged) simp
  have uhf: "unat ?hf = unat h + 32 + unat (sz h)" using lim by (rule unat_foot)
  have hw: "h = l + (sz l + EL_BLOCK_OVERHEAD)"
  proof -
    have "unat (l + (sz l + EL_BLOCK_OVERHEAD)) = unat l + unat (sz l) + 40"
      using lim mh by (intro unat_above) simp
    then show ?thesis using mh by (metis word_unat_eq_iff)
  qed
  have foot_l: "l + (sizeof_blockhead + new) = ?hf"
    by (simp add: hw new_def)
  have frame: "tile ?sz ?ft lo' xs hi' = tile sz ft lo' xs hi'"
    if out: "\<forall>x \<in> set xs. unat x + unat (sz x) + 40 \<le> ?m \<or> unat h + unat (sz h) + 40 \<le> unat x"
      and inh: "\<forall>x \<in> set xs. unat x + unat (sz x) + 40 \<le> unat he"
    for lo' xs hi'
  proof (rule tile_frame, rule ballI)
    fix x assume x: "x \<in> set xs"
    then have o: "unat x + unat (sz x) + 40 \<le> ?m \<or> unat h + unat (sz h) + 40 \<le> unat x"
      and i: "unat x + unat (sz x) + 40 \<le> unat he"
      using out inh by auto
    have "unat x + unat (sz x) + 40 < 2 ^ 64" using i unat_lt64[of he] by simp
    then have fx: "unat (x + (sizeof_blockhead + sz x)) = unat x + 32 + unat (sz x)"
      by (rule unat_foot)
    have "x \<noteq> l" using o mh by auto
    moreover have "x + (sizeof_blockhead + sz x) \<noteq> ?hf"
      by (rule unat_neq, unfold fx uhf) (use o mh in linarith)
    ultimately show "?sz x = sz x \<and>
        ?ft (x + (sizeof_blockhead + sz x)) = ft (x + (sizeof_blockhead + sz x))"
      by simp
  qed
  have P': "tile ?sz ?ft lo P (lo + extent sz P)"
  proof -
    have a: "\<forall>x \<in> set P. unat x + unat (sz x) + 40 \<le> ?m"
      using tile_before[OF t] by auto
    then have "\<forall>x \<in> set P. unat x + unat (sz x) + 40 \<le> unat he"
      using top mh by auto
    then show ?thesis using frame[of P lo "lo + extent sz P"] tP a by auto
  qed
  have Q': "tile ?sz ?ft (unat h + unat (sz h) + 40) Q (unat he)"
  proof -
    have "\<forall>x \<in> set Q. unat h + unat (sz h) + 40 \<le> unat x"
      using tile_mem[OF tQ] by auto
    moreover have "\<forall>x \<in> set Q. unat x + unat (sz x) + 40 \<le> unat he"
      using tile_mem[OF tQ] by auto
    ultimately show ?thesis using frame[of Q] tQ by auto
  qed
  have eP: "extent ?sz P = extent sz P"
  proof -
    have "\<forall>x \<in> set P. ?sz x = sz x"
    proof
      fix x assume "x \<in> set P"
      then have "unat x + unat (sz x) + 40 \<le> ?m" using tile_before[OF t] by auto
      then have "x \<noteq> l" by auto
      then show "?sz x = sz x" by simp
    qed
    then show ?thesis unfolding extent_def by (auto intro!: arg_cong[where f=sum_list] map_cong)
  qed
  have szl: "?sz l = new" by simp
  have ftl: "?ft ?hf = new" by simp
  have e: "lo + extent sz P + unat new + unat EL_BLOCK_OVERHEAD = unat h + unat (sz h) + 40"
    using un mh ml by simp
  have Q'': "tile ?sz ?ft (lo + extent sz P + unat new + unat EL_BLOCK_OVERHEAD) Q (unat he)"
    unfolding e by (rule Q')
  show "tile ?sz ?ft lo (P @ l # Q) (unat he)"
    unfolding tile_append tile.simps eP szl foot_l ftl
    using P' Q'' ml by simp
qed

lemma heap_ok_block:
  assumes "heap_ok s bs" and "b \<in> set bs"
  shows "b \<noteq> NULL" and "\<not> outside s b"
    and "unat (heap_start s) \<le> unat b"
    and "unat b + unat (blk_size s b) + 40 \<le> unat (heap_end s)"
proof -
  have t: "tile (blk_size s) (foot_size s) (unat (heap_start s)) bs (unat (heap_end s))"
    and n: "heap_start s \<noteq> NULL"
    using assms(1) by (auto simp: heap_ok_def)
  show r: "unat (heap_start s) \<le> unat b" "unat b + unat (blk_size s b) + 40 \<le> unat (heap_end s)"
    using tile_mem[OF t assms(2)] by auto
  have "0 < unat (heap_start s)" using n by (simp add: NULL_def unat_gt_0)
  then show "b \<noteq> NULL" using r(1) by (auto simp: NULL_def)
  show "\<not> outside s b" using r by (auto simp: outside_def word_less_nat_alt word_le_nat_alt)
qed

lemma block_above_heap:
  assumes "heap_ok s (P @ b # Q)"
  shows "el_block_above s b = (case Q of [] \<Rightarrow> NULL | h # _ \<Rightarrow> h)"
proof -
  have t: "tile (blk_size s) (foot_size s) (unat (heap_start s)) (P @ b # Q) (unat (heap_end s))"
    using assms by (auto simp: heap_ok_def)
  then have tQ: "tile (blk_size s) (foot_size s) (unat b + unat (blk_size s b) + 40) Q
      (unat (heap_end s))"
    by (auto simp: tile_append)
  have top: "unat b + unat (blk_size s b) + 40 \<le> unat (heap_end s)"
    using tile_extent[OF tQ] by simp
  then have "unat b + unat (blk_size s b) + 40 < 2 ^ 64" using unat_lt64[of "heap_end s"] by simp
  then have up: "unat (b + (blk_size s b + EL_BLOCK_OVERHEAD)) = unat b + unat (blk_size s b) + 40"
    by (rule unat_above)
  show ?thesis
  proof (cases Q)
    case Nil
    then have "unat (b + (blk_size s b + EL_BLOCK_OVERHEAD)) = unat (heap_end s)"
      using tQ up by simp
    then show ?thesis using Nil
      by (simp add: el_block_above_def PTR_PLUS_BYTES_def Let_def word_le_nat_alt)
  next
    case (Cons h Q')
    then have h: "unat h = unat b + unat (blk_size s b) + 40" using tQ by simp
    then have "b + (blk_size s b + EL_BLOCK_OVERHEAD) = h" using up by (metis word_unat_eq_iff)
    moreover have "unat h + unat (blk_size s h) + 40 \<le> unat (heap_end s)"
      using tile_mem[OF tQ, of h] Cons by simp
    then have "\<not> heap_end s \<le> h" by (simp add: word_le_nat_alt)
    ultimately show ?thesis using Cons
      by (simp add: el_block_above_def PTR_PLUS_BYTES_def Let_def)
  qed
qed

lemma block_below_heap:
  assumes "heap_ok s (P @ b # Q)"
  shows "el_block_below s b = (if P = [] then NULL else last P)"
proof -
  have t: "tile (blk_size s) (foot_size s) (unat (heap_start s)) (P @ b # Q) (unat (heap_end s))"
    using assms by (auto simp: heap_ok_def)
  show ?thesis
  proof (cases P rule: rev_cases)
    case Nil
    then have "unat b = unat (heap_start s)" using t by simp
    then have "b = heap_start s" by (metis word_unat_eq_iff)
    then show ?thesis using Nil by (simp add: el_block_below_def)
  next
    case (snoc P' p)
    then have t': "tile (blk_size s) (foot_size s) (unat (heap_start s)) (P' @ p # b # Q)
        (unat (heap_end s))"
      using t by simp
    then have pb: "unat b = unat p + unat (blk_size s p) + 40"
      and fp: "foot_size s (p + (sizeof_blockhead + blk_size s p)) = blk_size s p"
      by (auto simp: tile_append)
    have "unat (heap_start s) \<le> unat p"
      using tile_mem[OF t', of p] by simp
    then have "b \<noteq> heap_start s" using pb by auto
    have "unat b < 2 ^ 64" by (rule unat_lt64)
    then have "unat (p + (blk_size s p + EL_BLOCK_OVERHEAD)) = unat p + unat (blk_size s p) + 40"
      using pb by (intro unat_above) simp
    then have bw: "b = p + (blk_size s p + EL_BLOCK_OVERHEAD)"
      using pb by (metis word_unat_eq_iff)
    have foot: "b - sizeof_blockfoot = p + (sizeof_blockhead + blk_size s p)"
      by (simp add: bw EL_BLOCK_OVERHEAD_def)
    have "el_get_header s (b - sizeof_blockfoot) = p"
      unfolding el_get_header_def PTR_PLUS_BYTES_def foot fp by simp
    then show ?thesis using snoc \<open>b \<noteq> heap_start s\<close>
      by (simp add: el_block_below_def PTR_MINUS_BYTES_def)
  qed
qed

section \<open>The operations on well-formed states\<close>

subsection \<open>Both lists\<close>

lemma lists_ok_remove_avail:
  assumes "lists_ok s as us" and "x \<in> set as"
  shows "lists_ok (el_remove_block avail x s) (remove1 x as) us"
proof -
  have a: "one_list s avail as" and u: "one_list s used us"
    and d: "set (list_nodes s avail as) \<inter> set (list_nodes s used us) = {}"
    using assms(1) by (auto simp: lists_ok_def)
  have "set (list_nodes s avail (remove1 x as)) \<subseteq> set (list_nodes s avail as)"
    by (auto simp: list_nodes_def dest: notin_set_remove1)
  then show ?thesis
    using one_list_remove[OF a assms(2)] one_list_remove_other[OF a assms(2) u _ d] d
    by (auto simp: lists_ok_def)
qed

lemma lists_ok_remove_used:
  assumes "lists_ok s as us" and "x \<in> set us"
  shows "lists_ok (el_remove_block used x s) as (remove1 x us)"
proof -
  have a: "one_list s avail as" and u: "one_list s used us"
    and d: "set (list_nodes s used us) \<inter> set (list_nodes s avail as) = {}"
    using assms(1) by (auto simp: lists_ok_def)
  have "set (list_nodes s used (remove1 x us)) \<subseteq> set (list_nodes s used us)"
    by (auto simp: list_nodes_def dest: notin_set_remove1)
  then show ?thesis
    using one_list_remove[OF u assms(2)] one_list_remove_other[OF u assms(2) a _ d] d
    by (auto simp: lists_ok_def)
qed

lemma lists_ok_add_avail:
  assumes "lists_ok s as us" and "x \<notin> set (list_nodes s avail as)"
    and "x \<notin> set (list_nodes s used us)" and "x \<noteq> NULL"
  shows "lists_ok (el_add_block_front avail x s) (x # as) us"
proof -
  have a: "one_list s avail as" and u: "one_list s used us"
    and d: "set (list_nodes s avail as) \<inter> set (list_nodes s used us) = {}"
    using assms(1) by (auto simp: lists_ok_def)
  have "set (list_nodes s avail (x # as)) = insert x (set (list_nodes s avail as))"
    by (auto simp: list_nodes_def)
  then show ?thesis
    using one_list_add[OF a assms(2,4)] one_list_add_other[OF a assms(2) u _ assms(3) d] d
      assms(3)
    by (auto simp: lists_ok_def)
qed

lemma lists_ok_add_used:
  assumes "lists_ok s as us" and "x \<notin> set (list_nodes s avail as)"
    and "x \<notin> set (list_nodes s used us)" and "x \<noteq> NULL"
  shows "lists_ok (el_add_block_front used x s) as (x # us)"
proof -
  have a: "one_list s avail as" and u: "one_list s used us"
    and d: "set (list_nodes s used us) \<inter> set (list_nodes s avail as) = {}"
    using assms(1) by (auto simp: lists_ok_def)
  have "set (list_nodes s used (x # us)) = insert x (set (list_nodes s used us))"
    by (auto simp: list_nodes_def)
  then show ?thesis
    using one_list_add[OF u assms(3,4)] one_list_add_other[OF u assms(3) a _ assms(2) d] d
      assms(2)
    by (auto simp: lists_ok_def)
qed

lemma one_list_frame:
  assumes "blk_next s' = blk_next s" and "blk_prev s' = blk_prev s"
    and "blocklist s' = blocklist s" and "\<forall>x \<in> set xs. blk_size s' x = blk_size s x"
  shows "one_list s' l xs = one_list s l xs"
proof -
  have "(\<Sum>b\<leftarrow>xs. blk_size s' b + EL_BLOCK_OVERHEAD) = (\<Sum>b\<leftarrow>xs. blk_size s b + EL_BLOCK_OVERHEAD)"
    using assms(4) by (auto intro!: arg_cong[where f=sum_list] map_cong)
  then show ?thesis using assms(1-3) by (simp add: one_list_def list_nodes_def)
qed

lemma lists_ok_frame:
  assumes "blk_next s' = blk_next s" and "blk_prev s' = blk_prev s"
    and "blocklist s' = blocklist s"
    and "\<forall>x \<in> set as \<union> set us. blk_size s' x = blk_size s x"
  shows "lists_ok s' as us = lists_ok s as us"
proof -
  have "one_list s' avail as = one_list s avail as"
    by (rule one_list_frame) (use assms in auto)
  moreover have "one_list s' used us = one_list s used us"
    by (rule one_list_frame) (use assms in auto)
  ultimately show ?thesis using assms(3) by (simp add: lists_ok_def list_nodes_def)
qed

lemma heap_ok_frame:
  assumes "heap_start s' = heap_start s" and "heap_end s' = heap_end s"
    and "heap_bytes s' = heap_bytes s" and "blocklist s' = blocklist s"
    and "blk_size s' = blk_size s" and "foot_size s' = foot_size s"
  shows "heap_ok s' bs = heap_ok s bs"
  using assms by (simp add: heap_ok_def outside_def)

lemma heap_ok_remove [simp]: "heap_ok (el_remove_block l x s) bs = heap_ok s bs"
  by (simp add: heap_ok_def outside_def)

lemma heap_ok_add [simp]: "heap_ok (el_add_block_front l x s) bs = heap_ok s bs"
  by (simp add: heap_ok_def outside_def)

lemma lists_ok_sentinel_outside:
  assumes "heap_ok s bs" and "b \<in> set bs"
  shows "b \<noteq> l_beg (blocklist s l)" and "b \<noteq> l_end (blocklist s l)"
proof -
  have "\<not> outside s b" using heap_ok_block(2)[OF assms] .
  moreover have "outside s (l_beg (blocklist s l))" "outside s (l_end (blocklist s l))"
    using assms(1) by (cases l; simp add: heap_ok_def)+
  ultimately show "b \<noteq> l_beg (blocklist s l)" "b \<noteq> l_end (blocklist s l)" by auto
qed

lemma coalesced_states_append:
  "coalesced_states (xs @ ys) \<longleftrightarrow>
     coalesced_states xs \<and> coalesced_states ys \<and>
     (xs = [] \<or> ys = [] \<or> \<not> (last xs = EL_AVAILABLE \<and> hd ys = EL_AVAILABLE))"
proof (induction xs)
  case Nil
  then show ?case by simp
next
  case (Cons x xs)
  show ?case
  proof (cases xs)
    case Nil
    then show ?thesis by (cases ys) auto
  next
    case (Cons y r)
    then show ?thesis using Cons.IH by auto
  qed
qed

lemma one_list_members: "one_list s l xs \<Longrightarrow> members s l xs"
  unfolding one_list_def members_def list_nodes_def by simp

lemma wf_members:
  assumes "well_formed s as us bs"
  shows "members s avail as" and "members s used us"
proof -
  have "one_list s avail as" "one_list s used us"
    using assms unfolding well_formed_def lists_ok_def by simp_all
  then show "members s avail as" "members s used us" by (simp_all add: one_list_members)
qed

lemma lists_ok_distinct:
  assumes "lists_ok s as us"
  shows "distinct as" and "distinct us" and "set as \<inter> set us = {}"
proof -
  have a: "distinct (list_nodes s avail as)" and u: "distinct (list_nodes s used us)"
    and d: "set (list_nodes s avail as) \<inter> set (list_nodes s used us) = {}"
    using assms unfolding lists_ok_def one_list_def by simp_all
  show "distinct as" using a unfolding list_nodes_def by simp
  show "distinct us" using u unfolding list_nodes_def by simp
  show "set as \<inter> set us = {}" using d unfolding list_nodes_def by auto
qed

lemma wf_sets:
  assumes "well_formed s as us bs"
  shows "set as \<union> set us = set bs" and "set as \<inter> set us = {}"
    and "distinct as" and "distinct us" and "distinct bs"
proof -
  have l: "lists_ok s as us" and t: "heap_ok s bs"
    using assms unfolding well_formed_def by simp_all
  have "tile (blk_size s) (foot_size s) (unat (heap_start s)) bs (unat (heap_end s))"
    using t unfolding heap_ok_def by simp
  then show "distinct bs" by (rule tile_distinct)
  show "distinct as" "distinct us" "set as \<inter> set us = {}"
    using lists_ok_distinct[OF l] by simp_all
  show "set as \<union> set us = set bs" using assms unfolding well_formed_def by simp
qed

lemma split_block_eq:
  assumes h: "heap_ok s bs" and b: "b \<in> set bs" and fit: "unat n + 40 \<le> unat (blk_size s b)"
  shows "el_split_block b n s =
    (b + (n + EL_BLOCK_OVERHEAD),
     s\<lparr>blk_size := (blk_size s)(b := n,
          b + (n + EL_BLOCK_OVERHEAD) := blk_size s b - n - EL_BLOCK_OVERHEAD),
       foot_size := (foot_size s)(b + (sizeof_blockhead + n) := n,
          b + (sizeof_blockhead + blk_size s b) := blk_size s b - n - EL_BLOCK_OVERHEAD)\<rparr>)"
proof -
  have top: "unat b + unat (blk_size s b) + 40 \<le> unat (heap_end s)"
    using heap_ok_block(4)[OF h b] .
  have lim: "unat b + unat n + 40 < 2 ^ 64"
    using top fit unat_lt64[of "heap_end s"] by simp
  have "unat (n + EL_BLOCK_OVERHEAD) = unat n + 40"
    using lim unat_add_lem[of n EL_BLOCK_OVERHEAD] by simp
  then have c: "\<not> blk_size s b < n + EL_BLOCK_OVERHEAD"
    using fit by (simp add: word_less_nat_alt)
  have "unat (b + (n + EL_BLOCK_OVERHEAD)) = unat b + unat n + 40"
    using lim by (rule unat_above)
  then have a: "\<not> heap_end s \<le> b + (n + EL_BLOCK_OVERHEAD)"
    using top fit by (simp add: word_le_nat_alt)
  show ?thesis
    unfolding el_split_block_def el_get_footer_def el_block_above_def PTR_PLUS_BYTES_def
    using c a by (simp add: Let_def)
qed

lemma find_first:
  "\<forall>x \<in> set F. \<not> Q x \<Longrightarrow> Q b \<Longrightarrow> List.find Q (F @ b # B) = Some b"
  by (induction F) auto

lemma inside_not_block:
  assumes t: "tile sz ft lo (P @ b # Q) hi"
    and u: "unat b < unat u" "unat u < unat b + unat (sz b) + 40"
  shows "u \<notin> set (P @ b # Q)"
proof
  assume "u \<in> set (P @ b # Q)"
  then consider "u \<in> set P" | "u = b" | "u \<in> set Q" by auto
  then show False
  proof cases
    case 1
    then show ?thesis using tile_before[OF t 1] u by simp
  next
    case 2
    then show ?thesis using u by simp
  next
    case 3
    then show ?thesis using tile_after[OF t 3] u by simp
  qed
qed

lemma coalesced_split:
  assumes "coalesced_states (xs @ EL_AVAILABLE # ys)"
  shows "coalesced_states (xs @ EL_USED # EL_AVAILABLE # ys)"
proof -
  have "coalesced_states (xs @ [EL_AVAILABLE] @ ys)" using assms by simp
  then have "coalesced_states (xs @ [EL_USED] @ [EL_AVAILABLE] @ ys)"
    unfolding coalesced_states_append by (cases ys) auto
  then show ?thesis by simp
qed

lemma el_malloc_split:
  fixes n :: size_t
  assumes w: "well_formed s as us bs" and c: "coalesced s bs"
    and as: "as = F @ b # B" and skip: "\<forall>x \<in> set F. blk_size s x < n + EL_BLOCK_OVERHEAD"
    and fit: "unat n + 40 \<le> unat (blk_size s b)"
    and bs: "bs = P @ b # Q"
  defines "u \<equiv> b + (n + EL_BLOCK_OVERHEAD)"
  shows "\<exists>s'. el_malloc n s = Some (b + sizeof_blockhead, s') \<and>
           well_formed s' (u # F @ B) (b # us) (P @ b # u # Q) \<and>
           coalesced s' (P @ b # u # Q) \<and>
           blk_size s' b = n \<and>
           blk_size s' u = blk_size s b - n - EL_BLOCK_OVERHEAD \<and>
           blk_state s' = (blk_state s)(b := EL_USED, u := EL_AVAILABLE)"
proof -
  let ?r = "blk_size s b - n - EL_BLOCK_OVERHEAD"
  have hok: "heap_ok s bs" and lok: "lists_ok s as us"
    and ms: "set as \<union> set us = set bs"
    and sta: "\<forall>x \<in> set as. blk_state s x = EL_AVAILABLE"
    and stu: "\<forall>x \<in> set us. blk_state s x = EL_USED"
    using w unfolding well_formed_def by simp_all
  note sets = wf_sets[OF w]
  have b_as: "b \<in> set as" and b_bs: "b \<in> set bs" using as bs by simp_all
  have bF: "b \<notin> set F" "b \<notin> set B" using sets(3) as by auto
  have b_us: "b \<notin> set us" using sets(2) b_as by auto
  have bnn: "b \<noteq> NULL" using heap_ok_block(1)[OF hok b_bs] .
  have t: "tile (blk_size s) (foot_size s) (unat (heap_start s)) (P @ b # Q) (unat (heap_end s))"
    using hok unfolding heap_ok_def bs by simp
  have top: "unat b + unat (blk_size s b) + 40 \<le> unat (heap_end s)"
    using heap_ok_block(4)[OF hok b_bs] .
  have lim: "unat b + unat n + 40 < 2 ^ 64"
    using top fit unat_lt64[of "heap_end s"] by simp
  have n40: "unat (n + EL_BLOCK_OVERHEAD) = unat n + 40"
    using lim unat_add_lem[of n EL_BLOCK_OVERHEAD] by simp
  have fitw: "n + EL_BLOCK_OVERHEAD \<le> blk_size s b"
    using fit n40 by (simp add: word_le_nat_alt)
  have uu: "unat u = unat b + unat n + 40" unfolding u_def using lim by (rule unat_above)
  have u_bs: "u \<notin> set bs"
    unfolding bs using t by (rule inside_not_block) (use uu fit in simp_all)
  have ub: "u \<noteq> b" using u_bs b_bs by auto
  have u_as: "u \<notin> set as" "u \<notin> set us" using u_bs sets(1) by auto
  \<comment> \<open>the search\<close>
  have "List.find (\<lambda>x. n + EL_BLOCK_OVERHEAD \<le> blk_size s x) as = Some b"
    unfolding as using skip fitw by (intro find_first) (auto simp: not_le)
  then have found: "el_find_first_avail s n = Some b"
    using el_find_first_avail_find[OF wf_members(1)[OF w], of n] by simp
  \<comment> \<open>unlinking the found block\<close>
  define s1 where "s1 = el_remove_block avail b s"
  have r1: "remove1 b as = F @ B" using bF by (simp add: as remove1_append)
  have l1: "lists_ok s1 (F @ B) us"
    using lists_ok_remove_avail[OF lok b_as] by (simp add: s1_def r1)
  have h1: "heap_ok s1 bs" using hok by (simp add: s1_def)
  have sz1: "blk_size s1 = blk_size s" and ft1: "foot_size s1 = foot_size s"
    and st1: "blk_state s1 = blk_state s"
    by (simp_all add: s1_def)
  \<comment> \<open>the split\<close>
  define s2 where "s2 = s1\<lparr>blk_size := (blk_size s1)(b := n, u := ?r),
      foot_size := (foot_size s1)(b + (sizeof_blockhead + n) := n,
         b + (sizeof_blockhead + blk_size s1 b) := ?r)\<rparr>"
  have sp: "el_split_block b n s1 = (u, s2)"
    using split_block_eq[OF h1 b_bs, of n] fit by (simp add: sz1 s2_def u_def)
  have t2: "tile (blk_size s2) (foot_size s2) (unat (heap_start s)) (P @ b # u # Q)
      (unat (heap_end s))"
    using tile_split[OF t fit] by (simp add: s2_def sz1 ft1 u_def)
  have h2: "heap_ok s2 (P @ b # u # Q)"
    using h1 t2 unfolding heap_ok_def by (simp add: s2_def s1_def outside_def)
  have l2: "lists_ok s2 (F @ B) us"
  proof -
    have "\<forall>x \<in> set (F @ B) \<union> set us. blk_size s2 x = blk_size s1 x"
      using bF b_us u_as by (auto simp: s2_def as)
    then have "lists_ok s2 (F @ B) us = lists_ok s1 (F @ B) us"
      by (intro lists_ok_frame) (simp_all add: s2_def)
    then show ?thesis using l1 by simp
  qed
  have sent: "\<And>x l. x \<in> set (P @ b # u # Q) \<Longrightarrow> x \<noteq> l_beg (blocklist s2 l) \<and> x \<noteq> l_end (blocklist s2 l)"
    using lists_ok_sentinel_outside[OF h2] by blast
  \<comment> \<open>linking the user block into the used list\<close>
  define s3 where "s3 = el_add_block_front used b s2"
  define s4 where "s4 = s3\<lparr>blk_state := (blk_state s3)(b := EL_USED)\<rparr>"
  have l3: "lists_ok s3 (F @ B) (b # us)"
    unfolding s3_def
    using l2 bF b_us sent[of b] bnn by (intro lists_ok_add_used) (auto simp: list_nodes_def)
  have l4: "lists_ok s4 (F @ B) (b # us)"
  proof -
    have "lists_ok s4 (F @ B) (b # us) = lists_ok s3 (F @ B) (b # us)"
      by (intro lists_ok_frame) (simp_all add: s4_def)
    then show ?thesis using l3 by simp
  qed
  \<comment> \<open>linking the remainder into the available list\<close>
  define s5 where "s5 = el_add_block_front avail u s4"
  define s6 where "s6 = s5\<lparr>blk_state := (blk_state s5)(u := EL_AVAILABLE)\<rparr>"
  have unn: "u \<noteq> NULL" using heap_ok_block(1)[OF h2, of u] by simp
  have bl4: "blocklist s4 = blocklist s3" by (simp add: s4_def)
  have l5: "lists_ok s5 (u # F @ B) (b # us)"
    unfolding s5_def
    using l4 u_as ub sent[of u] unn
    by (intro lists_ok_add_avail) (auto simp: list_nodes_def as bl4 s3_def)
  have l6: "lists_ok s6 (u # F @ B) (b # us)"
  proof -
    have "lists_ok s6 (u # F @ B) (b # us) = lists_ok s5 (u # F @ B) (b # us)"
      by (intro lists_ok_frame) (simp_all add: s6_def)
    then show ?thesis using l5 by simp
  qed
  have sz6: "blk_size s6 = blk_size s2" and ft6: "foot_size s6 = foot_size s2"
    by (simp_all add: s6_def s5_def s4_def s3_def)
  have st6: "blk_state s6 = (blk_state s)(b := EL_USED, u := EL_AVAILABLE)"
    by (simp add: s6_def s5_def s4_def s3_def s2_def st1)
  have h6: "heap_ok s6 (P @ b # u # Q)"
  proof -
    have "heap_ok s6 (P @ b # u # Q) = heap_ok s2 (P @ b # u # Q)"
      unfolding heap_ok_def outside_def by (simp add: s6_def s5_def s4_def s3_def)
    then show ?thesis using h2 by simp
  qed
  have m6: "set (u # F @ B) \<union> set (b # us) = set (P @ b # u # Q)"
    using ms by (auto simp: as bs)
  have sta6: "\<forall>x \<in> set (u # F @ B). blk_state s6 x = EL_AVAILABLE"
    using sta bF by (auto simp: st6 as)
  have stu6: "\<forall>x \<in> set (b # us). blk_state s6 x = EL_USED"
    using stu b_us u_as ub by (auto simp: st6)
  have w6: "well_formed s6 (u # F @ B) (b # us) (P @ b # u # Q)"
    unfolding well_formed_def using h6 l6 m6 sta6 stu6 by simp
  have c6: "coalesced s6 (P @ b # u # Q)"
  proof -
    have PQ: "b \<notin> set P" "b \<notin> set Q" "u \<notin> set P" "u \<notin> set Q"
      using sets(5) u_bs by (auto simp: bs)
    then have mp: "map (blk_state s6) P = map (blk_state s) P"
      "map (blk_state s6) Q = map (blk_state s) Q"
      by (auto simp: st6)
    have "coalesced_states (map (blk_state s) P @ EL_AVAILABLE # map (blk_state s) Q)"
      using c sta b_as by (simp add: coalesced_def bs)
    then have cs: "coalesced_states (map (blk_state s) P @ EL_USED # EL_AVAILABLE # map (blk_state s) Q)"
      by (rule coalesced_split)
    have eq: "map (blk_state s6) (P @ b # u # Q)
        = map (blk_state s) P @ EL_USED # EL_AVAILABLE # map (blk_state s) Q"
      using ub by (simp add: mp, simp add: st6)
    show ?thesis unfolding coalesced_def eq by (rule cs)
  qed
  have sp': "el_split_block b n (el_remove_block avail b s) = (u, s2)"
    using sp by (simp add: s1_def)
  have res: "el_malloc n s = Some (b + sizeof_blockhead, s6)"
    unfolding el_malloc_def s6_def s5_def s4_def s3_def
    using found bnn unn sp'
    by (simp add: Let_def PTR_PLUS_BYTES_def)
  have "blk_size s6 b = n" "blk_size s6 u = ?r"
    using ub by (simp_all add: sz6 s2_def sz1)
  then show ?thesis using res w6 c6 st6 by blast
qed

lemma merge_above_noop:
  assumes "heap_ok s (P @ l # Q)" and "Q = [] \<or> blk_state s (hd Q) = EL_USED"
  shows "el_merge_block_with_above l s = s"
proof -
  have "el_block_above s l = (case Q of [] \<Rightarrow> NULL | h # _ \<Rightarrow> h)"
    using assms(1) by (rule block_above_heap)
  then have "el_block_above s l = NULL \<or> blk_state s (el_block_above s l) = EL_USED"
    using assms(2) by (cases Q) auto
  then show ?thesis by (auto simp: el_merge_block_with_above_def Let_def)
qed

lemma merge_above_used: "blk_state s l = EL_USED \<Longrightarrow> el_merge_block_with_above l s = s"
  by (simp add: el_merge_block_with_above_def)

lemma merge_above_null: "el_merge_block_with_above NULL s = s"
  by (simp add: el_merge_block_with_above_def)

lemma merge_above_merges:
  assumes w: "well_formed s as us (P @ l # h # Q)" and l: "l \<in> set as" and h: "h \<in> set as"
  defines "new \<equiv> blk_size s l + blk_size s h + EL_BLOCK_OVERHEAD"
  defines "s' \<equiv> el_merge_block_with_above l s"
  shows "well_formed s' (l # remove1 h (remove1 l as)) us (P @ l # Q)"
    and "blk_size s' = (blk_size s)(l := new)"
    and "blk_state s' = blk_state s"
proof -
  let ?bs = "P @ l # h # Q"
  have hok: "heap_ok s ?bs" and lok: "lists_ok s as us"
    and ms: "set as \<union> set us = set ?bs"
    and sta: "\<forall>x \<in> set as. blk_state s x = EL_AVAILABLE"
    and stu: "\<forall>x \<in> set us. blk_state s x = EL_USED"
    using w unfolding well_formed_def by simp_all
  note sets = wf_sets[OF w]
  have lh: "l \<noteq> h" using sets(5) by auto
  have lnn: "l \<noteq> NULL" using heap_ok_block(1)[OF hok, of l] by simp
  have l_us: "l \<notin> set us" "h \<notin> set us" using sets(2) l h by auto
  have stl: "blk_state s l = EL_AVAILABLE" "blk_state s h = EL_AVAILABLE"
    using sta l h by auto
  have ab: "el_block_above s l = h"
    using block_above_heap[of s P l "h # Q"] hok by simp
  have hnn: "h \<noteq> NULL" using heap_ok_block(1)[OF hok, of h] by simp
  have t: "tile (blk_size s) (foot_size s) (unat (heap_start s)) ?bs (unat (heap_end s))"
    using hok unfolding heap_ok_def by simp
  define s1 where "s1 = el_remove_block avail l s"
  define s2 where "s2 = el_remove_block avail h s1"
  define s3 where "s3 = s2\<lparr>blk_size := (blk_size s2)(l := new)\<rparr>"
  define s4 where "s4 = s3\<lparr>foot_size := (foot_size s3)(h + (sizeof_blockhead + blk_size s h) := new)\<rparr>"
  define s5 where "s5 = el_add_block_front avail l s4"
  let ?as = "remove1 h (remove1 l as)"
  have res: "s' = s5"
    unfolding s'_def el_merge_block_with_above_def s5_def s4_def s3_def s2_def s1_def
    using lnn stl ab hnn lh
    by (simp add: Let_def el_get_footer_def PTR_PLUS_BYTES_def new_def)
  have l1: "lists_ok s1 (remove1 l as) us"
    unfolding s1_def using lok l by (rule lists_ok_remove_avail)
  have "h \<in> set (remove1 l as)" using h lh by simp
  then have l2: "lists_ok s2 ?as us"
    unfolding s2_def using l1 by (intro lists_ok_remove_avail)
  have l_out: "l \<notin> set ?as" using sets(3) by (auto dest: notin_set_remove1)
  have l4: "lists_ok s4 ?as us"
  proof -
    have "\<forall>x \<in> set ?as \<union> set us. blk_size s4 x = blk_size s2 x"
      using l_out l_us by (auto simp: s4_def s3_def)
    then have "lists_ok s4 ?as us = lists_ok s2 ?as us"
      by (intro lists_ok_frame) (simp_all add: s4_def s3_def)
    then show ?thesis using l2 by simp
  qed
  have bl4: "blocklist s4 = blocklist s2" by (simp add: s4_def s3_def)
  have sent: "l \<noteq> l_beg (blocklist s k)" "l \<noteq> l_end (blocklist s k)" for k
    using lists_ok_sentinel_outside[OF hok, of l] by simp_all
  have l5: "lists_ok s5 (l # ?as) us"
    unfolding s5_def
    using l4 l_out l_us sent lnn
    by (intro lists_ok_add_avail) (auto simp: list_nodes_def bl4 s2_def s1_def)
  have sz5: "blk_size s5 = (blk_size s)(l := new)"
    and ft5: "foot_size s5 = (foot_size s)(h + (sizeof_blockhead + blk_size s h) := new)"
    and st5: "blk_state s5 = blk_state s"
    by (simp_all add: s5_def s4_def s3_def s2_def s1_def)
  have t5: "tile (blk_size s5) (foot_size s5) (unat (heap_start s)) (P @ l # Q) (unat (heap_end s))"
    unfolding sz5 ft5 new_def using t by (rule tile_merge(1))
  have h5: "heap_ok s5 (P @ l # Q)"
    using hok t5 unfolding heap_ok_def outside_def
    by (simp add: s5_def s4_def s3_def s2_def s1_def)
  have m5: "set (l # ?as) \<union> set us = set (P @ l # Q)"
  proof -
    have "set ?as = set as - {l, h}" using sets(3) by (auto simp: distinct_remove1)
    moreover have "h \<notin> set P" "h \<notin> set Q" "h \<noteq> l" using sets(5) by auto
    ultimately show ?thesis using ms l_us l by auto
  qed
  have sta5: "\<forall>x \<in> set (l # ?as). blk_state s5 x = EL_AVAILABLE"
    using sta l by (auto simp: st5 dest: notin_set_remove1)
  have "well_formed s5 (l # ?as) us (P @ l # Q)"
    unfolding well_formed_def using h5 l5 m5 sta5 stu by (simp add: st5)
  then show "well_formed s' (l # remove1 h (remove1 l as)) us (P @ l # Q)"
    and "blk_size s' = (blk_size s)(l := new)"
    and "blk_state s' = blk_state s"
    using res sz5 st5 by simp_all
qed

lemma coalesced_free:
  assumes "coalesced_states (xs @ EL_USED # ys)"
  shows "coalesced_states
     ((if xs \<noteq> [] \<and> last xs = EL_AVAILABLE then butlast xs else xs) @ EL_AVAILABLE #
      (if ys \<noteq> [] \<and> hd ys = EL_AVAILABLE then tl ys else ys))"
proof -
  let ?xs = "if xs \<noteq> [] \<and> last xs = EL_AVAILABLE then butlast xs else xs"
  let ?ys = "if ys \<noteq> [] \<and> hd ys = EL_AVAILABLE then tl ys else ys"
  have "coalesced_states (xs @ [EL_USED] @ ys)" using assms by simp
  then have cx: "coalesced_states xs" and cy: "coalesced_states ys"
    unfolding coalesced_states_append by simp_all
  have x: "coalesced_states ?xs \<and> (?xs = [] \<or> last ?xs \<noteq> EL_AVAILABLE)"
  proof (cases "xs \<noteq> [] \<and> last xs = EL_AVAILABLE")
    case True
    then have "coalesced_states (butlast xs @ [EL_AVAILABLE])"
      using cx by (metis append_butlast_last_id)
    then show ?thesis using True unfolding coalesced_states_append by auto
  next
    case False
    then show ?thesis using cx by auto
  qed
  have y: "coalesced_states ?ys \<and> (?ys = [] \<or> hd ?ys \<noteq> EL_AVAILABLE)"
  proof (cases "ys \<noteq> [] \<and> hd ys = EL_AVAILABLE")
    case True
    then have "coalesced_states ([EL_AVAILABLE] @ tl ys)"
      using cy by (metis append_Cons append_Nil list.collapse)
    then show ?thesis using True unfolding coalesced_states_append by auto
  next
    case False
    then show ?thesis using cy by auto
  qed
  have "coalesced_states (?xs @ [EL_AVAILABLE] @ ?ys)"
    unfolding coalesced_states_append using x y by auto
  then show ?thesis by simp
qed

text \<open>The first half of \<open>el_free\<close>: the block moves from the used to the available list.\<close>

lemma free_relink:
  assumes w: "well_formed s as us bs" and b: "b \<in> set us"
  defines "s1 \<equiv> el_remove_block used b s"
  defines "s2 \<equiv> s1\<lparr>blk_state := (blk_state s1)(b := EL_AVAILABLE)\<rparr>"
  defines "s3 \<equiv> el_add_block_front avail b s2"
  shows "well_formed s3 (b # as) (remove1 b us) bs"
    and "blk_size s3 = blk_size s"
    and "blk_state s3 = (blk_state s)(b := EL_AVAILABLE)"
proof -
  have hok: "heap_ok s bs" and lok: "lists_ok s as us"
    and ms: "set as \<union> set us = set bs"
    and sta: "\<forall>x \<in> set as. blk_state s x = EL_AVAILABLE"
    and stu: "\<forall>x \<in> set us. blk_state s x = EL_USED"
    using w unfolding well_formed_def by simp_all
  note sets = wf_sets[OF w]
  have b_bs: "b \<in> set bs" using ms b by auto
  have b_as: "b \<notin> set as" using sets(2) b by auto
  have bnn: "b \<noteq> NULL" using heap_ok_block(1)[OF hok b_bs] .
  have l1: "lists_ok s1 as (remove1 b us)"
    unfolding s1_def using lok b by (rule lists_ok_remove_used)
  have l2: "lists_ok s2 as (remove1 b us)"
  proof -
    have "lists_ok s2 as (remove1 b us) = lists_ok s1 as (remove1 b us)"
      by (intro lists_ok_frame) (simp_all add: s2_def)
    then show ?thesis using l1 by simp
  qed
  have sent: "b \<noteq> l_beg (blocklist s k)" "b \<noteq> l_end (blocklist s k)" for k
    using lists_ok_sentinel_outside[OF hok b_bs] by simp_all
  have b_out: "b \<notin> set (remove1 b us)" using sets(4) by simp
  have l3: "lists_ok s3 (b # as) (remove1 b us)"
    unfolding s3_def
    using l2 b_as b_out sent bnn
    by (intro lists_ok_add_avail) (auto simp: list_nodes_def s2_def s1_def)
  show sz3: "blk_size s3 = blk_size s"
    and st3: "blk_state s3 = (blk_state s)(b := EL_AVAILABLE)"
    by (simp_all add: s3_def s2_def s1_def)
  have h3: "heap_ok s3 bs"
    using hok unfolding heap_ok_def outside_def by (simp add: s3_def s2_def s1_def)
  have m3: "set (b # as) \<union> set (remove1 b us) = set bs"
    using ms b sets(4) by auto
  have "\<forall>x \<in> set (b # as). blk_state s3 x = EL_AVAILABLE"
    using sta by (simp add: st3)
  moreover have "\<forall>x \<in> set (remove1 b us). blk_state s3 x = EL_USED"
    using stu sets(4) by (auto simp: st3)
  ultimately show "well_formed s3 (b # as) (remove1 b us) bs"
    unfolding well_formed_def using h3 l3 m3 by simp
qed

lemma el_free_unfold:
  assumes "blk_state s b \<noteq> EL_AVAILABLE"
  shows "el_free (b + sizeof_blockhead) s =
    (let s3 = el_add_block_front avail b
           ((el_remove_block used b s)\<lparr>blk_state :=
               (blk_state (el_remove_block used b s))(b := EL_AVAILABLE)\<rparr>);
         s4 = el_merge_block_with_above b s3
     in el_merge_block_with_above (el_block_below s4 b) s4)"
  using assms by (simp add: el_free_def PTR_PLUS_BYTES_def Let_def)

lemma wf_state_cases:
  assumes "well_formed s as us bs" and "x \<in> set bs"
  shows "(x \<in> set as \<longleftrightarrow> blk_state s x = EL_AVAILABLE)"
    and "(x \<in> set us \<longleftrightarrow> blk_state s x = EL_USED)"
    and "blk_state s x \<noteq> EL_AVAILABLE \<Longrightarrow> blk_state s x = EL_USED"
proof -
  have ms: "set as \<union> set us = set bs"
    and sta: "\<forall>x \<in> set as. blk_state s x = EL_AVAILABLE"
    and stu: "\<forall>x \<in> set us. blk_state s x = EL_USED"
    using assms(1) unfolding well_formed_def by simp_all
  have "x \<in> set as \<or> x \<in> set us" using ms assms(2) by auto
  then show "(x \<in> set as \<longleftrightarrow> blk_state s x = EL_AVAILABLE)"
    "(x \<in> set us \<longleftrightarrow> blk_state s x = EL_USED)"
    "blk_state s x \<noteq> EL_AVAILABLE \<Longrightarrow> blk_state s x = EL_USED"
    using sta stu by auto
qed

lemma el_free_spec:
  assumes w: "well_formed s as us (P @ b # Q)" and c: "coalesced s (P @ b # Q)" and b: "b \<in> set us"
  defines "up \<equiv> Q \<noteq> [] \<and> blk_state s (hd Q) = EL_AVAILABLE"
    and "down \<equiv> P \<noteq> [] \<and> blk_state s (last P) = EL_AVAILABLE"
  defines "sz1 \<equiv> (if up then blk_size s b + blk_size s (hd Q) + EL_BLOCK_OVERHEAD
                   else blk_size s b)"
  defines "t \<equiv> (if down then last P else b)"
    and "bs' \<equiv> (if down then butlast P else P) @ (if down then last P else b) #
                (if up then tl Q else Q)"
    and "s' \<equiv> el_free (b + sizeof_blockhead) s"
  shows "\<exists>as'. well_formed s' as' (remove1 b us) bs'"
    and "coalesced s' bs'"
    and "blk_state s' = (blk_state s)(b := EL_AVAILABLE)"
    and "blk_size s' t = (if down then blk_size s (last P) + sz1 + EL_BLOCK_OVERHEAD else sz1)"
    and "\<forall>x. x \<noteq> b \<and> x \<noteq> t \<longrightarrow> blk_size s' x = blk_size s x"
proof -
  let ?bs = "P @ b # Q"
  let ?us = "remove1 b us"
  let ?st = "blk_state s"
  note sets = wf_sets[OF w]
  have stb: "?st b = EL_USED" using w b unfolding well_formed_def by simp
  define s3 where "s3 = el_add_block_front avail b
     ((el_remove_block used b s)\<lparr>blk_state :=
         (blk_state (el_remove_block used b s))(b := EL_AVAILABLE)\<rparr>)"
  define s4 where "s4 = el_merge_block_with_above b s3"
  have res: "s' = el_merge_block_with_above (el_block_below s4 b) s4"
    unfolding s'_def s4_def s3_def using el_free_unfold[of s b] stb by (simp add: Let_def)
  have w3: "well_formed s3 (b # as) ?us ?bs" and sz3: "blk_size s3 = blk_size s"
    and st3: "blk_state s3 = ?st(b := EL_AVAILABLE)"
    unfolding s3_def using free_relink[OF w b] by simp_all
  \<comment> \<open>merging with the block above\<close>
  define as4 where "as4 = (if up then b # remove1 (hd Q) as else b # as)"
  define Q4 where "Q4 = (if up then tl Q else Q)"
  have step4: "well_formed s4 as4 ?us (P @ b # Q4) \<and> blk_size s4 = (blk_size s)(b := sz1) \<and>
      blk_state s4 = blk_state s3"
  proof (cases up)
    case True
    then obtain h Q' where Q: "Q = h # Q'" and sth: "?st h = EL_AVAILABLE"
      unfolding up_def by (cases Q) auto
    have "h \<in> set as" using wf_state_cases(1)[OF w, of h] sth Q by simp
    then have h3: "h \<in> set (b # as)" by simp
    have w3': "well_formed s3 (b # as) ?us (P @ b # h # Q')" using w3 Q by simp
    have b3: "b \<in> set (b # as)" by simp
    show ?thesis
      using merge_above_merges[OF w3' b3 h3] True
      by (simp add: s4_def as4_def Q4_def Q sz1_def sz3)
  next
    case False
    have "Q = [] \<or> blk_state s3 (hd Q) = EL_USED"
    proof (cases Q)
      case Nil
      then show ?thesis by simp
    next
      case (Cons h Q')
      then have "h \<noteq> b" using sets(5) by auto
      moreover have "?st h = EL_USED"
        using False Cons wf_state_cases(3)[OF w, of h] unfolding up_def by simp
      ultimately show ?thesis using Cons by (simp add: st3)
    qed
    moreover have "heap_ok s3 ?bs" using w3 unfolding well_formed_def by simp
    ultimately have "s4 = s3" unfolding s4_def by (intro merge_above_noop)
    then show ?thesis using w3 False by (simp add: as4_def Q4_def sz1_def sz3)
  qed
  then have w4: "well_formed s4 as4 ?us (P @ b # Q4)" and sz4: "blk_size s4 = (blk_size s)(b := sz1)"
    and st4: "blk_state s4 = ?st(b := EL_AVAILABLE)"
    using st3 by simp_all
  have h4: "heap_ok s4 (P @ b # Q4)" using w4 unfolding well_formed_def by simp
  have b4: "b \<in> set as4" by (simp add: as4_def)
  \<comment> \<open>merging with the block below\<close>
  have below: "el_block_below s4 b = (if P = [] then NULL else last P)"
    using h4 by (rule block_below_heap)
  define as5 where "as5 = (if down then last P # remove1 b (remove1 (last P) as4) else as4)"
  have step5: "well_formed s' as5 ?us bs' \<and>
      blk_size s' = (if down then (blk_size s4)(last P := blk_size s4 (last P) + blk_size s4 b
                        + EL_BLOCK_OVERHEAD) else blk_size s4) \<and>
      blk_state s' = blk_state s4"
  proof (cases down)
    case True
    then obtain P' p where P: "P = P' @ [p]" and stp: "?st p = EL_AVAILABLE"
      unfolding down_def by (cases P rule: rev_cases) auto
    have pb: "p \<noteq> b" using sets(5) P by auto
    have "p \<in> set as" using wf_state_cases(1)[OF w, of p] stp P by simp
    moreover have "p \<noteq> hd Q" if "Q \<noteq> []"
      using sets(5) P that by (cases Q) auto
    ultimately have p4: "p \<in> set as4" using pb unfolding as4_def up_def by auto
    have w4': "well_formed s4 as4 ?us (P' @ p # b # Q4)" using w4 P by simp
    show ?thesis
      using merge_above_merges[OF w4' p4 b4] True
      by (simp add: res below P as5_def bs'_def Q4_def)
  next
    case False
    have "s' = s4"
    proof (cases "P = []")
      case True
      then show ?thesis using res below by (simp add: merge_above_null)
    next
      case nonempty: False
      then have "last P \<in> set ?bs" by simp
      moreover have "last P \<noteq> b" using sets(5) nonempty
        by (metis append_butlast_last_id disjoint_iff distinct_append in_set_conv_decomp
            list.set_intros(1))
      ultimately have "blk_state s4 (last P) = EL_USED"
        using False nonempty wf_state_cases(3)[OF w, of "last P"] unfolding down_def
        by (simp add: st4)
      then show ?thesis using res below nonempty by (simp add: merge_above_used)
    qed
    then show ?thesis using w4 False by (simp add: as5_def bs'_def Q4_def)
  qed
  then show "\<exists>as'. well_formed s' as' (remove1 b us) bs'" by blast
  show st': "blk_state s' = ?st(b := EL_AVAILABLE)" using step5 st4 by simp
  have sz': "blk_size s' = (if down then ((blk_size s)(b := sz1))(last P := blk_size s (last P)
      + sz1 + EL_BLOCK_OVERHEAD) else (blk_size s)(b := sz1))"
  proof (cases down)
    case True
    then have "last P \<noteq> b" using sets(5) unfolding down_def
      by (metis append_butlast_last_id disjoint_iff distinct_append in_set_conv_decomp
          list.set_intros(1))
    then show ?thesis using step5 True by (simp add: sz4)
  next
    case False
    then show ?thesis using step5 by (simp add: sz4)
  qed
  show "blk_size s' t = (if down then blk_size s (last P) + sz1 + EL_BLOCK_OVERHEAD else sz1)"
    unfolding sz' t_def by simp
  show "\<forall>x. x \<noteq> b \<and> x \<noteq> t \<longrightarrow> blk_size s' x = blk_size s x"
    unfolding sz' t_def by simp
  \<comment> \<open>no two neighbours are both available\<close>
  have PQ: "b \<notin> set P" "b \<notin> set Q" using sets(5) by auto
  have cs: "coalesced_states (map ?st P @ EL_USED # map ?st Q)"
    using c stb by (simp add: coalesced_def)
  have dn: "map ?st P \<noteq> [] \<and> last (map ?st P) = EL_AVAILABLE \<longleftrightarrow> down"
    unfolding down_def by (auto simp: last_map)
  have upp: "map ?st Q \<noteq> [] \<and> hd (map ?st Q) = EL_AVAILABLE \<longleftrightarrow> up"
    unfolding up_def by (auto simp: hd_map)
  have "map (?st(b := EL_AVAILABLE)) bs' =
      (if down then butlast (map ?st P) else map ?st P) @ EL_AVAILABLE #
      (if up then tl (map ?st Q) else map ?st Q)"
  proof -
    have "map (?st(b := EL_AVAILABLE)) xs = map ?st xs" if "b \<notin> set xs" for xs
      using that by simp
    moreover have "b \<notin> set (butlast P)" using PQ by (auto dest: in_set_butlastD)
    moreover have "b \<notin> set (tl Q)" using PQ by (cases Q) auto
    moreover have "(?st(b := EL_AVAILABLE)) (if down then last P else b) = EL_AVAILABLE"
      unfolding down_def by auto
    ultimately show ?thesis
      unfolding bs'_def using PQ by (simp add: map_butlast map_tl)
  qed
  then show "coalesced s' bs'"
    unfolding coalesced_def st' using coalesced_free[OF cs] dn upp by simp
qed

section \<open>Initialisation and the invariant\<close>

lemma el_init_state:
  assumes "EL_BLOCK_OVERHEAD \<le> S"
  shows "\<exists>s. el_init heap S u heap w = Some (0, s) \<and>
    heap_start s = heap \<and> heap_end s = heap + S \<and> heap_bytes s = S \<and>
    l_beg (blocklist s avail) = beg_actual (blocklist w avail) \<and>
    l_end (blocklist s avail) = end_actual (blocklist w avail) \<and>
    l_beg (blocklist s used) = beg_actual (blocklist w used) \<and>
    l_end (blocklist s used) = end_actual (blocklist w used) \<and>
    l_length (blocklist s avail) = 1 \<and> l_bytes (blocklist s avail) = S \<and>
    l_length (blocklist s used) = 0 \<and> l_bytes (blocklist s used) = 0 \<and>
    blk_size s heap = S - EL_BLOCK_OVERHEAD \<and>
    foot_size s (heap + (sizeof_blockhead + (S - EL_BLOCK_OVERHEAD))) = S - EL_BLOCK_OVERHEAD \<and>
    blk_state s heap = EL_AVAILABLE \<and>
    (distinct [heap, beg_actual (blocklist w avail), end_actual (blocklist w avail),
               beg_actual (blocklist w used), end_actual (blocklist w used)] \<longrightarrow>
       dll (blk_next s) (blk_prev s) (beg_actual (blocklist w avail)) [heap]
          (end_actual (blocklist w avail)) \<and>
       dll (blk_next s) (blk_prev s) (beg_actual (blocklist w used)) []
          (end_actual (blocklist w used)))"
proof -
  have c: "\<not> S < EL_BLOCK_OVERHEAD" using assms by (simp add: not_less)
  show ?thesis
    unfolding el_init_def
    using c
    by (simp add: Let_def PTR_PLUS_BYTES_def el_init_blocklist_def list_upd_def
        el_add_block_front_def el_get_footer_def)
qed

lemma el_init_wf:
  assumes ok: "init_ok w heap S"
  shows "\<exists>s. el_init heap S u heap w = Some (0, s) \<and> well_formed s [heap] [] [heap] \<and>
     coalesced s [heap] \<and> blk_size s heap = S - EL_BLOCK_OVERHEAD \<and> heap_bytes s = S"
proof -
  let ?ab = "beg_actual (blocklist w avail)" and ?ae = "end_actual (blocklist w avail)"
  let ?ub = "beg_actual (blocklist w used)" and ?ue = "end_actual (blocklist w used)"
  have nn: "heap \<noteq> NULL" and nw: "unat heap + unat S < 2 ^ 64" and big: "EL_BLOCK_OVERHEAD \<le> S"
    and ds: "distinct [?ab, ?ae, ?ub, ?ue]"
    and out: "\<forall>x \<in> set [?ab, ?ae, ?ub, ?ue]. x \<noteq> NULL \<and> (x < heap \<or> heap + S \<le> x)"
    using ok unfolding init_ok_def by simp_all
  have uS: "unat (heap + S) = unat heap + unat S"
    using nw unat_add_lem[of heap S] by simp
  have S40: "40 \<le> unat S" using big by (simp add: word_le_nat_alt)
  have ur: "unat (S - EL_BLOCK_OVERHEAD) = unat S - 40"
    using big by (simp add: unat_sub)
  have inside: "\<not> (heap < heap \<or> heap + S \<le> heap)"
    using uS S40 by (simp add: word_le_nat_alt)
  then have hne: "heap \<noteq> ?ab" "heap \<noteq> ?ae" "heap \<noteq> ?ub" "heap \<noteq> ?ue"
    using out by auto
  then have d5: "distinct [heap, ?ab, ?ae, ?ub, ?ue]" using ds by auto
  obtain s where r: "el_init heap S u heap w = Some (0, s)"
    and f: "heap_start s = heap" "heap_end s = heap + S" "heap_bytes s = S"
      "l_beg (blocklist s avail) = ?ab" "l_end (blocklist s avail) = ?ae"
      "l_beg (blocklist s used) = ?ub" "l_end (blocklist s used) = ?ue"
    and cnt: "l_length (blocklist s avail) = 1" "l_bytes (blocklist s avail) = S"
      "l_length (blocklist s used) = 0" "l_bytes (blocklist s used) = 0"
    and sz: "blk_size s heap = S - EL_BLOCK_OVERHEAD"
    and ft: "foot_size s (heap + (sizeof_blockhead + (S - EL_BLOCK_OVERHEAD))) = S - EL_BLOCK_OVERHEAD"
    and st: "blk_state s heap = EL_AVAILABLE"
    and links: "dll (blk_next s) (blk_prev s) ?ab [heap] ?ae" "dll (blk_next s) (blk_prev s) ?ub [] ?ue"
    using el_init_state[OF big, of heap u w] d5 by blast
  have t: "tile (blk_size s) (foot_size s) (unat heap) [heap] (unat (heap + S))"
    using sz ft ur uS S40 by simp
  have hok: "heap_ok s [heap]"
    unfolding heap_ok_def outside_def f using nn t out by simp
  have snn: "NULL \<noteq> ?ab" "NULL \<noteq> ?ae" "NULL \<noteq> ?ub" "NULL \<noteq> ?ue" "NULL \<noteq> heap"
    using out nn by auto
  have sd: "?ab \<noteq> ?ae" "?ub \<noteq> ?ue" using ds by auto
  have la: "one_list s avail [heap]"
    unfolding one_list_def list_nodes_def f cnt
    using links(1) hne sd snn sz by simp
  have lu: "one_list s used []"
    unfolding one_list_def list_nodes_def f cnt
    using links(2) sd snn by simp
  have lok: "lists_ok s [heap] []"
    unfolding lists_ok_def list_nodes_def f using la lu ds hne by auto
  have "well_formed s [heap] [] [heap]" unfolding well_formed_def using hok lok st by simp
  moreover have "coalesced s [heap]" by (simp add: coalesced_def)
  ultimately show ?thesis using r sz f(3) by blast
qed

lemma payload_inj:
  assumes "heap_ok s bs" and "x \<in> set bs" and "y \<in> set bs"
    and "x + sizeof_blockhead = y + sizeof_blockhead"
  shows "x = y"
  using assms(4) by simp

lemma payload_nonnull:
  assumes "heap_ok s bs" and "b \<in> set bs"
  shows "b + sizeof_blockhead \<noteq> NULL"
proof -
  have "unat b + unat (blk_size s b) + 40 \<le> unat (heap_end s)"
    using heap_ok_block(4)[OF assms] .
  then have "unat b + 32 < 2 ^ 64" using unat_lt64[of "heap_end s"] by simp
  then have "unat (b + sizeof_blockhead) = unat b + 32"
    using unat_add_lem[of b sizeof_blockhead] by simp
  then show ?thesis by (auto simp: NULL_def)
qed

lemma el_malloc_wf:
  assumes w: "well_formed s as us bs" and c: "coalesced s bs"
    and nov: "unat n + unat EL_BLOCK_OVERHEAD < 2 ^ 64"
    and m: "el_malloc n s = Some (p, s')"
  shows "\<exists>as' us' bs'. well_formed s' as' us' bs' \<and> coalesced s' bs' \<and>
     (\<lambda>b. b + sizeof_blockhead) ` set us' =
       (if p = NULL then (\<lambda>b. b + sizeof_blockhead) ` set us
        else insert p ((\<lambda>b. b + sizeof_blockhead) ` set us))"
proof (cases "List.find (\<lambda>b. n + EL_BLOCK_OVERHEAD \<le> blk_size s b) as")
  case None
  then have "\<forall>b \<in> set as. blk_size s b < n + EL_BLOCK_OVERHEAD"
    by (auto simp: find_None_iff)
  then have "el_malloc n s = Some (NULL, s)"
    using el_find_first_avail_find[OF wf_members(1)[OF w], of n] None
    by (simp add: el_malloc_def)
  then show ?thesis using m w c by auto
next
  case (Some b)
  then obtain i where i: "i < length as" "n + EL_BLOCK_OVERHEAD \<le> blk_size s (as ! i)"
      "b = as ! i" "\<forall>j < i. \<not> n + EL_BLOCK_OVERHEAD \<le> blk_size s (as ! j)"
    by (auto simp: find_Some_iff)
  define F B where "F = take i as" and "B = drop (Suc i) as"
  have as: "as = F @ b # B" unfolding F_def B_def using i(1,3) by (simp add: id_take_nth_drop)
  have skip: "\<forall>x \<in> set F. blk_size s x < n + EL_BLOCK_OVERHEAD"
  proof
    fix x assume "x \<in> set F"
    then obtain j where "j < i" "x = as ! j"
      unfolding F_def using i(1) by (auto simp: in_set_conv_nth)
    then show "blk_size s x < n + EL_BLOCK_OVERHEAD" using i(4) by auto
  qed
  have "unat (n + EL_BLOCK_OVERHEAD) = unat n + 40"
    using nov unat_add_lem[of n EL_BLOCK_OVERHEAD] by simp
  then have fit: "unat n + 40 \<le> unat (blk_size s b)"
    using i(2,3) by (simp add: word_le_nat_alt)
  have "b \<in> set bs" using wf_sets(1)[OF w] as by auto
  then obtain P Q where bs: "bs = P @ b # Q" by (auto dest: split_list)
  obtain s1 where s1: "el_malloc n s = Some (b + sizeof_blockhead, s1)"
    and w1: "well_formed s1 ((b + (n + EL_BLOCK_OVERHEAD)) # F @ B) (b # us) (P @ b # (b + (n + EL_BLOCK_OVERHEAD)) # Q)"
    and c1: "coalesced s1 (P @ b # (b + (n + EL_BLOCK_OVERHEAD)) # Q)"
    using el_malloc_split[OF w c as skip fit bs] by blast
  have hok: "heap_ok s bs" using w unfolding well_formed_def by simp
  have pn: "b + sizeof_blockhead \<noteq> NULL"
    using payload_nonnull[OF hok \<open>b \<in> set bs\<close>] .
  have p: "p = b + sizeof_blockhead" and s': "s' = s1" using s1 m by simp_all
  have "(\<lambda>b. b + sizeof_blockhead) ` set (b # us) =
       (if p = NULL then (\<lambda>b. b + sizeof_blockhead) ` set us
        else insert p ((\<lambda>b. b + sizeof_blockhead) ` set us))"
    using pn unfolding p by simp
  then show ?thesis using w1 c1 unfolding s' by blast
qed

lemma el_free_wf:
  assumes w: "well_formed s as us bs" and c: "coalesced s bs" and b: "b \<in> set us"
  shows "\<exists>as' bs'. well_formed (el_free (b + sizeof_blockhead) s) as' (remove1 b us) bs' \<and>
     coalesced (el_free (b + sizeof_blockhead) s) bs'"
proof -
  have "b \<in> set bs" using wf_sets(1)[OF w] b by auto
  then obtain P Q where bs: "bs = P @ b # Q" by (auto dest: split_list)
  show ?thesis
    using el_free_spec(1,2)[OF w[unfolded bs] c[unfolded bs] b] by blast
qed

lemma reachable_wf:
  assumes "reachable L s"
  shows "\<exists>as us bs. well_formed s as us bs \<and> coalesced s bs \<and>
     L = (\<lambda>b. b + sizeof_blockhead) ` set us"
  using assms
proof (induction rule: reachable.induct)
  case (init w heap S u s)
  obtain s0 where r: "el_init heap S u heap w = Some (0, s0)"
    and w0: "well_formed s0 [heap] [] [heap]" and c0: "coalesced s0 [heap]"
    using el_init_wf[OF init(1), of u] by blast
  have "s0 = s" using r init(2) by simp
  then have "well_formed s [heap] [] [heap] \<and> coalesced s [heap] \<and>
      {} = (\<lambda>b. b + sizeof_blockhead) ` set []"
    using w0 c0 by simp
  then show ?case by blast
next
  case (malloc L s n p s')
  then obtain as us bs where w: "well_formed s as us bs" and c: "coalesced s bs"
    and L: "L = (\<lambda>b. b + sizeof_blockhead) ` set us" by blast
  obtain as' us' bs' where w': "well_formed s' as' us' bs'" and c': "coalesced s' bs'"
    and img: "(\<lambda>b. b + sizeof_blockhead) ` set us' =
       (if p = NULL then (\<lambda>b. b + sizeof_blockhead) ` set us
        else insert p ((\<lambda>b. b + sizeof_blockhead) ` set us))"
    using el_malloc_wf[OF w c malloc(2,3)] by blast
  have "(if p = NULL then L else insert p L) = (\<lambda>b. b + sizeof_blockhead) ` set us'"
    unfolding img L by simp
  then show ?case using w' c' by blast
next
  case (free L s p)
  then obtain as us bs where w: "well_formed s as us bs" and c: "coalesced s bs"
    and L: "L = (\<lambda>b. b + sizeof_blockhead) ` set us" by blast
  obtain b where b: "b \<in> set us" and p: "p = b + sizeof_blockhead" using free(2) L by blast
  obtain as' bs' where w': "well_formed (el_free p s) as' (remove1 b us) bs'"
    and c': "coalesced (el_free p s) bs'"
    using el_free_wf[OF w c b] p by blast
  have "distinct us" using wf_sets(4)[OF w] .
  then have r: "set (remove1 b us) = set us - {b}" by simp
  have inj: "inj (\<lambda>b :: addr. b + sizeof_blockhead)" by (simp add: inj_def)
  have "(\<lambda>b. b + sizeof_blockhead) ` (set us - {b}) =
      (\<lambda>b. b + sizeof_blockhead) ` set us - (\<lambda>b. b + sizeof_blockhead) ` {b}"
    using inj by (rule image_set_diff)
  then have "L - {p} = (\<lambda>b. b + sizeof_blockhead) ` set (remove1 b us)"
    unfolding L p r by simp
  then show ?case using w' c' by blast
qed

lemma sum_extent:
  "(\<Sum>b\<leftarrow>bs. sz b + EL_BLOCK_OVERHEAD) = (of_nat (extent sz bs) :: 64 word)"
  by (induction bs) (simp_all add: EL_BLOCK_OVERHEAD_def sizeof_blockhead_def sizeof_blockfoot_def)

lemma sum_payload:
  "(\<Sum>b\<leftarrow>xs. sz b + EL_BLOCK_OVERHEAD) =
     (\<Sum>b\<leftarrow>xs. sz b) + EL_BLOCK_OVERHEAD * (of_nat (length xs) :: 64 word)"
  by (induction xs) (simp_all add: algebra_simps)

lemma well_formed_bytes:
  assumes w: "well_formed s as us bs"
  shows "l_bytes (blocklist s avail) + l_bytes (blocklist s used) = heap_bytes s"
proof -
  let ?f = "\<lambda>b. blk_size s b + EL_BLOCK_OVERHEAD"
  have la: "l_bytes (blocklist s avail) = (\<Sum>b\<leftarrow>as. ?f b)"
    and lu: "l_bytes (blocklist s used) = (\<Sum>b\<leftarrow>us. ?f b)"
    using w unfolding well_formed_def lists_ok_def one_list_def by simp_all
  note sets = wf_sets[OF w]
  have d: "distinct (as @ us)" using sets(2,3,4) by simp
  have e: "set (as @ us) = set bs" using sets(1) by simp
  have "mset (as @ us) = mset bs"
    using set_eq_iff_mset_eq_distinct[OF d sets(5)] e by blast
  then have "image_mset ?f (mset (as @ us)) = image_mset ?f (mset bs)" by (rule arg_cong)
  then have "mset (map ?f (as @ us)) = mset (map ?f bs)" unfolding mset_map .
  then have "sum_mset (mset (map ?f (as @ us))) = sum_mset (mset (map ?f bs))" by simp
  then have "(\<Sum>b\<leftarrow>as @ us. ?f b) = (\<Sum>b\<leftarrow>bs. ?f b)"
    unfolding sum_mset_sum_list .
  then have sum: "l_bytes (blocklist s avail) + l_bytes (blocklist s used) = (\<Sum>b\<leftarrow>bs. ?f b)"
    using la lu by simp
  have hok: "heap_ok s bs" using w unfolding well_formed_def by simp
  then have t: "tile (blk_size s) (foot_size s) (unat (heap_start s)) bs (unat (heap_end s))"
    and he: "heap_start s + heap_bytes s = heap_end s"
    unfolding heap_ok_def by simp_all
  have "unat (heap_end s) = unat (heap_start s) + extent (blk_size s) bs"
    using tile_extent[OF t] .
  then have "(of_nat (unat (heap_end s)) :: 64 word) =
      of_nat (unat (heap_start s) + extent (blk_size s) bs)"
    by (rule arg_cong)
  then have "heap_start s + heap_bytes s = heap_start s + of_nat (extent (blk_size s) bs)"
    using he by simp
  then have "of_nat (extent (blk_size s) bs) = heap_bytes s"
    by simp
  then show ?thesis using sum by (simp add: sum_extent)
qed

lemma well_formed_payload:
  assumes w: "well_formed s as us bs"
  shows "(\<Sum>b\<leftarrow>as @ us. blk_size s b) +
      EL_BLOCK_OVERHEAD * (l_length (blocklist s avail) + l_length (blocklist s used)) =
    heap_bytes s"
proof -
  let ?f = "\<lambda>b. blk_size s b + EL_BLOCK_OVERHEAD"
  have la: "l_bytes (blocklist s avail) = (\<Sum>b\<leftarrow>as. ?f b)"
    and lu: "l_bytes (blocklist s used) = (\<Sum>b\<leftarrow>us. ?f b)"
    and na: "l_length (blocklist s avail) = of_nat (length as)"
    and nu: "l_length (blocklist s used) = of_nat (length us)"
    using w unfolding well_formed_def lists_ok_def one_list_def by simp_all
  have "(\<Sum>b\<leftarrow>as @ us. blk_size s b) +
      EL_BLOCK_OVERHEAD * (l_length (blocklist s avail) + l_length (blocklist s used)) =
      l_bytes (blocklist s avail) + l_bytes (blocklist s used)"
    unfolding la lu na nu sum_payload by (simp add: algebra_simps)
  then show ?thesis using well_formed_bytes[OF w] by simp
qed

lemma example_world_ok: "init_ok example_world 0x600000000000 4096"
  by (simp add: init_ok_def example_world_def NULL_def EL_BLOCK_OVERHEAD_def
      sizeof_blockhead_def sizeof_blockfoot_def)

lemma example_heap_reachable: "reachable {} example_heap"
  using reachable.init[OF example_world_ok example_heap_init] .

lemma example_heap_counters:
  "l_length (blocklist example_heap avail) = 1"
  "l_bytes (blocklist example_heap avail) = 4096"
  "l_length (blocklist example_heap used) = 0"
  "l_bytes (blocklist example_heap used) = 0"
  "heap_bytes example_heap = 4096"
  by (simp_all add: example_heap_def example_world_def el_defs Let_def)

section \<open>Claims\<close>

text \<open>
  C1.  On a state whose available list has the member blocks \<open>xs\<close> (in list order),
  \<open>el_find_first_avail n\<close> returns.  Its result is either \<open>NULL\<close>, and then every member
  has a size field below \<open>n + EL_BLOCK_OVERHEAD\<close>, or a member \<open>r\<close> whose size field is
  at least \<open>n + EL_BLOCK_OVERHEAD\<close> while every member in front of it in list order is
  below \<open>n + EL_BLOCK_OVERHEAD\<close> and was skipped, whether or not \<open>n\<close> alone would fit in
  it.  The sum \<open>n + EL_BLOCK_OVERHEAD\<close> is the one the code computes, in \<open>size_t\<close>.
\<close>

theorem el_find_first_avail_first_fit:
  assumes "members s avail xs"
  shows "\<exists>r. el_find_first_avail s n = Some r \<and>
     (r = NULL \<and> (\<forall>b \<in> set xs. blk_size s b < n + EL_BLOCK_OVERHEAD) \<or>
      (\<exists>front back. xs = front @ r # back \<and>
         (\<forall>b \<in> set front. blk_size s b < n + EL_BLOCK_OVERHEAD) \<and>
         n + EL_BLOCK_OVERHEAD \<le> blk_size s r))"
proof (cases "List.find (\<lambda>b. n + EL_BLOCK_OVERHEAD \<le> blk_size s b) xs")
  case None
  then have "\<forall>b \<in> set xs. blk_size s b < n + EL_BLOCK_OVERHEAD"
    by (auto simp: find_None_iff)
  then show ?thesis using el_find_first_avail_find[OF assms, of n] None by simp
next
  case (Some r)
  then obtain i where i: "i < length xs" "n + EL_BLOCK_OVERHEAD \<le> blk_size s (xs ! i)"
      "r = xs ! i" "\<forall>j < i. \<not> n + EL_BLOCK_OVERHEAD \<le> blk_size s (xs ! j)"
    by (auto simp: find_Some_iff)
  have split: "xs = take i xs @ r # drop (Suc i) xs"
    using i(1,3) by (simp add: id_take_nth_drop)
  have "\<forall>b \<in> set (take i xs). blk_size s b < n + EL_BLOCK_OVERHEAD"
  proof
    fix b assume "b \<in> set (take i xs)"
    then obtain j where "j < i" "b = xs ! j"
      using i(1) by (auto simp: in_set_conv_nth)
    then show "blk_size s b < n + EL_BLOCK_OVERHEAD" using i(4) by auto
  qed
  then show ?thesis
    using el_find_first_avail_find[OF assms, of n] Some split i(2,3) by auto
qed



text \<open>
  C9.  When the header recovered from the pointer \<open>ptr\<close> (at \<open>ptr\<close> minus the size of a
  header) is in the Available state, \<open>el_free ptr\<close> returns the state it was given:
  neither list and no header or footer is modified.
\<close>

theorem el_free_available_noop:
  assumes "blk_state s (ptr - sizeof_blockhead) = EL_AVAILABLE"
  shows "el_free ptr s = s"
  using assms by (simp add: el_free_def PTR_PLUS_BYTES_def)

theorem el_free_available_noop_witness:
  "blk_state example_heap (0x600000000020 - sizeof_blockhead) = EL_AVAILABLE \<and>
   el_free 0x600000000020 example_heap = example_heap"
proof -
  have h: "blk_state example_heap (0x600000000020 - sizeof_blockhead) = EL_AVAILABLE"
    by (simp add: sizeof_blockhead_def example_heap_state)
  show ?thesis using h el_free_available_noop[OF h] by simp
qed

text \<open>
  C7 (as amended).  For every region size \<open>S\<close> of at least \<open>EL_BLOCK_OVERHEAD + 1\<close>
  bytes, \<open>el_init\<close> succeeds, and in the state it leaves the used list is empty (length
  and bytes 0, the sentinels linked to each other), the available list has length 1 and
  holds exactly the block at the start of the region, that block is Available with size
  field \<open>S - EL_BLOCK_OVERHEAD\<close>, repeated in its footer, and the available list's bytes
  total is \<open>S\<close>: the counter includes the block's overhead.  The sentinels of the two
  lists and the region's first block are assumed to be at five different addresses.
\<close>

theorem el_init_one_available_block:
  assumes "unat EL_BLOCK_OVERHEAD + 1 \<le> unat S"
    and "distinct [heap, beg_actual (blocklist w avail), end_actual (blocklist w avail),
                   beg_actual (blocklist w used), end_actual (blocklist w used)]"
  shows "\<exists>s. el_init heap S u heap w = Some (0, s) \<and>
    l_length (blocklist s used) = 0 \<and> l_bytes (blocklist s used) = 0 \<and>
    dll (blk_next s) (blk_prev s) (l_beg (blocklist s used)) [] (l_end (blocklist s used)) \<and>
    l_length (blocklist s avail) = 1 \<and> l_bytes (blocklist s avail) = S \<and>
    dll (blk_next s) (blk_prev s) (l_beg (blocklist s avail)) [heap] (l_end (blocklist s avail)) \<and>
    heap_start s = heap \<and> heap_bytes s = S \<and>
    blk_state s heap = EL_AVAILABLE \<and> blk_size s heap = S - EL_BLOCK_OVERHEAD \<and>
    foot_size s (el_get_footer s heap) = S - EL_BLOCK_OVERHEAD"
proof -
  have big: "EL_BLOCK_OVERHEAD \<le> S" using assms(1) by (simp add: word_le_nat_alt)
  obtain s where r: "el_init heap S u heap w = Some (0, s)"
    and f: "heap_start s = heap" "heap_bytes s = S"
      "l_beg (blocklist s avail) = beg_actual (blocklist w avail)"
      "l_end (blocklist s avail) = end_actual (blocklist w avail)"
      "l_beg (blocklist s used) = beg_actual (blocklist w used)"
      "l_end (blocklist s used) = end_actual (blocklist w used)"
    and cnt: "l_length (blocklist s avail) = 1" "l_bytes (blocklist s avail) = S"
      "l_length (blocklist s used) = 0" "l_bytes (blocklist s used) = 0"
    and sz: "blk_size s heap = S - EL_BLOCK_OVERHEAD"
    and ft: "foot_size s (heap + (sizeof_blockhead + (S - EL_BLOCK_OVERHEAD))) = S - EL_BLOCK_OVERHEAD"
    and st: "blk_state s heap = EL_AVAILABLE"
    and links: "dll (blk_next s) (blk_prev s) (beg_actual (blocklist w avail)) [heap]
          (end_actual (blocklist w avail))"
       "dll (blk_next s) (blk_prev s) (beg_actual (blocklist w used)) []
          (end_actual (blocklist w used))"
    using el_init_state[OF big, of heap u w] assms(2) by blast
  have "foot_size s (el_get_footer s heap) = S - EL_BLOCK_OVERHEAD"
    using ft by (simp add: el_get_footer_def PTR_PLUS_BYTES_def sz)
  then show ?thesis using r f cnt sz st links by auto
qed

theorem el_init_one_available_block_witness:
  "unat EL_BLOCK_OVERHEAD + 1 \<le> unat (4096 :: size_t) \<and>
   el_init 0x600000000000 4096 0 0x600000000000 example_world = Some (0, example_heap) \<and>
   l_length (blocklist example_heap used) = 0 \<and>
   l_length (blocklist example_heap avail) = 1 \<and>
   l_bytes (blocklist example_heap avail) = 4096 \<and>
   blk_size example_heap 0x600000000000 = 4096 - EL_BLOCK_OVERHEAD"
proof -
  have h: "unat EL_BLOCK_OVERHEAD + 1 \<le> unat (4096 :: size_t)" by simp
  have d: "distinct [0x600000000000, beg_actual (blocklist example_world avail),
      end_actual (blocklist example_world avail), beg_actual (blocklist example_world used),
      end_actual (blocklist example_world used)]"
    by (simp add: example_world_def)
  show ?thesis
    using h el_init_one_available_block[OF h d, of 0] example_heap_init by auto
qed

theorem el_init_bytes_counterexample:
  "unat EL_BLOCK_OVERHEAD + 1 \<le> unat (4096 :: size_t) \<and>
   el_init 0x600000000000 4096 0 0x600000000000 example_world = Some (0, example_heap) \<and>
   l_bytes (blocklist example_heap avail) \<noteq> 4096 - EL_BLOCK_OVERHEAD"
  using example_heap_init
  by (simp add: example_heap_counters EL_BLOCK_OVERHEAD_def sizeof_blockhead_def
      sizeof_blockfoot_def)

text \<open>
  C8 (as amended).  In every state reached by a successful \<open>el_init\<close> followed by
  completed \<open>el_malloc\<close> calls whose request \<open>n\<close> keeps \<open>n + EL_BLOCK_OVERHEAD\<close> below
  \<open>2 ^ 64\<close> and \<open>el_free\<close> calls on pointers handed out and not yet freed, the two bytes
  counters already contain the overhead of every member block: their sum is
  \<open>heap_bytes\<close>, and so is the sum of the size fields of all member blocks plus
  \<open>EL_BLOCK_OVERHEAD\<close> times the two lengths.
\<close>

theorem bytes_counters_include_overhead:
  assumes "reachable L s"
  shows "l_bytes (blocklist s avail) + l_bytes (blocklist s used) = heap_bytes s \<and>
    (\<exists>as us. members s avail as \<and> members s used us \<and>
       (\<Sum>b\<leftarrow>as @ us. blk_size s b) +
         EL_BLOCK_OVERHEAD * (l_length (blocklist s avail) + l_length (blocklist s used)) =
       heap_bytes s)"
proof -
  obtain as us bs where w: "well_formed s as us bs"
    using reachable_wf[OF assms] by blast
  show ?thesis
    using well_formed_bytes[OF w] well_formed_payload[OF w] wf_members[OF w] by blast
qed

theorem bytes_counters_include_overhead_witness:
  "reachable {} example_heap \<and>
   l_bytes (blocklist example_heap avail) + l_bytes (blocklist example_heap used) =
     heap_bytes example_heap"
  using example_heap_reachable bytes_counters_include_overhead[OF example_heap_reachable]
  by simp

theorem bytes_plus_overhead_counterexample:
  "reachable {} example_heap \<and>
   l_bytes (blocklist example_heap avail) + l_bytes (blocklist example_heap used) +
     EL_BLOCK_OVERHEAD *
       (l_length (blocklist example_heap avail) + l_length (blocklist example_heap used)) =
     4136 \<and>
   heap_bytes example_heap = 4096"
  using example_heap_reachable
  by (simp add: example_heap_counters EL_BLOCK_OVERHEAD_def sizeof_blockhead_def
      sizeof_blockfoot_def)

end
